theory Spec2Isabelle
  imports Main "HOL-Library.AList" "HOL-Library.Sublist"
begin

section \<open>Data model\<close>

text \<open>
  The values that travel through the loader (\<^verbatim>\<open>Record<string, unknown>\<close> in
  \<^verbatim>\<open>src/lib/config.ts\<close>): scalars, arrays and string-keyed records. A record is a plain
  object (created by a literal or by \<^verbatim>\<open>JSON.parse\<close>, with \<^verbatim>\<open>Object.prototype\<close> as its
  prototype), given as the association list of its own properties in property order:
  \<^verbatim>\<open>for (const key in object)\<close> visits the entries in order, \<^verbatim>\<open>object[key]\<close> is \<open>map_of\<close>,
  and \<^verbatim>\<open>output[key] = v\<close> is \<open>AList.update\<close> (it replaces an existing property in place and
  appends a new one). \<open>None\<close> stands for \<^verbatim>\<open>undefined\<close>.

  The list of own properties is the whole object only as long as no property name reaches
  a member of \<^verbatim>\<open>Object.prototype\<close> in a way that matters: reading \<^verbatim>\<open>output['__proto__']\<close>
  yields the prototype and assigning to it sets the prototype or does nothing. The
  statements below therefore assume that the records they speak of are \<open>plain\<close>: no record,
  at any depth, has the key \<^verbatim>\<open>__proto__\<close>. (The other members of \<^verbatim>\<open>Object.prototype\<close> are
  functions, which \<^verbatim>\<open>isRecord\<close> rejects, and assigning to their names creates an own
  property, as \<open>AList.update\<close> does.) A JavaScript object holds every key once; the
  statements that need distinct keys say so.
\<close>

datatype jv =
    JNull
  | JBool bool
  | JNum int
  | JStr string
  | JArr "jv list"
  | JObj "(string \<times> jv) list"

type_synonym jrecord = "(string \<times> jv) list"

text \<open>\<^verbatim>\<open>isRecord\<close> (config.ts:234): an object that is neither null nor an array.\<close>

fun isRecord :: "jv option \<Rightarrow> bool" where
  "isRecord (Some (JObj r)) = True"
| "isRecord _ = False"

text \<open>A value is plain when no record in it, at any depth of records, has the key \<^verbatim>\<open>__proto__\<close>.\<close>

fun plain :: "jv \<Rightarrow> bool" where
  "plain (JObj r) = (\<forall>x \<in> set r. fst x \<noteq> ''__proto__'' \<and> plain (snd x))"
| "plain _ = True"

abbreviation rsize :: "jrecord \<Rightarrow> nat" where
  "rsize r \<equiv> size_list (size_prod (\<lambda>_. 0) size) r"

section \<open>Deep merge\<close>

text \<open>
  \<^verbatim>\<open>deepMerge\<close> (config.ts:218) is \<^verbatim>\<open>objects.reduce(reducer, {})\<close>. \<open>reducer\<close> is the
  callback: it runs the \<^verbatim>\<open>for ... in\<close> loop over the entries of \<open>object\<close> and returns the
  updated \<open>output\<close>; the value of an entry is \<^verbatim>\<open>object[key]\<close>, and \<open>map_of output key\<close> is
  \<^verbatim>\<open>output[key]\<close>. The nested call \<^verbatim>\<open>deepMerge(outputValue, objectValue)\<close> is the same
  reduction over the two-element list, that is \<open>reducer (reducer [] a) b\<close>. Neither
  argument is mutated: the accumulator is the fresh \<^verbatim>\<open>{}\<close> of \<^verbatim>\<open>reduce\<close>. \<open>reducer\<close> is the
  callback on plain records: at the key \<^verbatim>\<open>__proto__\<close> the code reads and sets the prototype
  of \<open>output\<close>, which the list of own properties does not show.
\<close>

function reducer :: "jrecord \<Rightarrow> jrecord \<Rightarrow> jrecord" where
  "reducer output [] = output"
| "reducer output ((key, objectValue) # rest) =
     reducer
       (case (map_of output key, objectValue) of
          (Some (JObj a), JObj b) \<Rightarrow> AList.update key (JObj (reducer (reducer [] a) b)) output
        | _ \<Rightarrow> AList.update key objectValue output)
       rest"
  by pat_completeness auto

lemma rsize_update_le: "rsize (AList.update k v r) \<le> rsize r + size v + 2"
  by (induction r) auto

lemma rsize_update_existing:
  "map_of r k = Some old \<Longrightarrow> rsize (AList.update k v r) + size old = rsize r + size v"
  by (induction r) (auto split: if_splits)

lemma rsize_map_of: "map_of r k = Some v \<Longrightarrow> size v + 2 \<le> rsize r"
  by (induction r) (auto split: if_splits)

lemma reducer_replace_case:
  assumes "\<not> (\<exists>a b. map_of out key = Some (JObj a) \<and> objectValue = JObj b)"
  shows "(case (map_of out key, objectValue) of
            (Some (JObj a), JObj b) \<Rightarrow> AList.update key (JObj (f a b)) out
          | _ \<Rightarrow> AList.update key objectValue out) = AList.update key objectValue out"
  using assms by (auto split: option.splits jv.splits)

lemma reducer_size:
  "reducer_dom (out, obj) \<Longrightarrow> rsize (reducer out obj) \<le> rsize out + rsize obj"
proof (induction out obj rule: reducer.pinduct)
  case (1 out)
  then show ?case by (simp add: reducer.psimps)
next
  case (2 out key objectValue rest)
  show ?case
  proof (cases "\<exists>a b. map_of out key = Some (JObj a) \<and> objectValue = JObj b")
    case True
    then obtain a b where ab: "map_of out key = Some (JObj a)" "objectValue = JObj b"
      by blast
    let ?new = "JObj (reducer (reducer [] a) b)"
    have s1: "rsize (reducer [] a) \<le> rsize a"
      using "2.IH"(1)[of "map_of out key" objectValue "JObj a" a b] ab by simp
    have s2: "rsize (reducer (reducer [] a) b) \<le> rsize (reducer [] a) + rsize b"
      using "2.IH"(2)[of "map_of out key" objectValue "JObj a" a b] ab by simp
    have s3: "rsize (reducer (AList.update key ?new out) rest)
                \<le> rsize (AList.update key ?new out) + rsize rest"
      using "2.IH"(3) ab by simp
    have s4: "rsize (AList.update key ?new out) + size (JObj a) = rsize out + size ?new"
      using rsize_update_existing[OF ab(1)] by simp
    have "reducer out ((key, objectValue) # rest) = reducer (AList.update key ?new out) rest"
      using ab "2.hyps" by (simp add: reducer.psimps)
    then show ?thesis using s1 s2 s3 s4 ab by simp
  next
    case False
    note eq = reducer_replace_case[OF False, of "\<lambda>a b. reducer (reducer [] a) b"]
    have "rsize (reducer (AList.update key objectValue out) rest)
            \<le> rsize (AList.update key objectValue out) + rsize rest"
      using "2.IH"(3) eq by simp
    moreover have "reducer out ((key, objectValue) # rest)
                     = reducer (AList.update key objectValue out) rest"
      using eq "2.hyps" by (simp add: reducer.psimps)
    ultimately show ?thesis using rsize_update_le[of key objectValue out] by simp
  qed
qed

termination reducer
proof (relation "measures [\<lambda>(out, obj). rsize out + rsize obj, \<lambda>(out, obj). length obj]",
    goal_cases)
  case 1
  then show ?case by simp
next
  case (2 out key objectValue rest x y x2 x6 x6a)
  then have "map_of out key = Some (JObj x6)" by simp
  from rsize_map_of[OF this] show ?case by simp
next
  case (3 out key objectValue rest x y x2 x6 x6a)
  then have m: "map_of out key = Some (JObj x6)" and o: "objectValue = JObj x6a"
    by simp_all
  from rsize_map_of[OF m] reducer_size[OF 3(5)] show ?case using o by simp
next
  case (4 out key objectValue rest)
  show ?case
  proof (cases "\<exists>a b. map_of out key = Some (JObj a) \<and> objectValue = JObj b")
    case True
    then obtain a b where ab: "map_of out key = Some (JObj a)" "objectValue = JObj b"
      by blast
    let ?new = "JObj (reducer (reducer [] a) b)"
    have d1: "reducer_dom ([], a)"
      using 4(1)[of "map_of out key" objectValue "JObj a" a b] ab by simp
    have d2: "reducer_dom (reducer [] a, b)"
      using 4(2)[of "map_of out key" objectValue "JObj a" a b] ab by simp
    have "rsize (AList.update key ?new out) + size (JObj a) = rsize out + size ?new"
      using rsize_update_existing[OF ab(1)] by simp
    then show ?thesis using ab reducer_size[OF d1] reducer_size[OF d2] by simp
  next
    case False
    note eq = reducer_replace_case[OF False, of "\<lambda>a b. reducer (reducer [] a) b"]
    show ?thesis unfolding eq using rsize_update_le[of key objectValue out] by auto
  qed
qed

definition deepMerge :: "jrecord list \<Rightarrow> jrecord" where
  "deepMerge objects = foldl reducer [] objects"

section \<open>Errors\<close>

text \<open>
  Every exception the loader can raise is a value: \<open>TypeError\<close> (a property assigned on
  a primitive string, the module is strict code), \<open>ReadError\<close> (the file system refuses the
  path), \<open>SyntaxError\<close> (\<^verbatim>\<open>JSON.parse\<close>) and \<open>ZodError\<close> (the validator; each issue is a
  classification with a field path).
\<close>

datatype ZodIssue = ZodIssue string "string list"

datatype error =
    TypeError
  | ReadError string
  | SyntaxError
  | ZodError "ZodIssue list"

section \<open>Environment resolver\<close>

text \<open>
  The schema tree as the resolver sees it. \<^verbatim>\<open>isZodObject\<close> (config.ts:214) is
  \<^verbatim>\<open>Reflect.has(value, 'shape')\<close>: of the schema nodes only an object schema has a
  \<^verbatim>\<open>shape\<close>; string and number schemas have none, and neither have the wrappers
  (\<^verbatim>\<open>z.optional\<close>, \<^verbatim>\<open>z.preprocess\<close> and other effects), which keep their inner schema
  in a different property.
\<close>

datatype zod =
    ZodObject "(string \<times> zod) list"
  | ZodString
  | ZodNumber
  | ZodOptional zod
  | ZodEffects zod

fun isZodObject :: "zod \<Rightarrow> bool" where
  "isZodObject (ZodObject shape) = True"
| "isZodObject _ = False"

text \<open>\<^verbatim>\<open>process.env\<close>: a variable name is mapped to its string, or is absent.\<close>

type_synonym env = "string \<rightharpoonup> string"

text \<open>
  \<^verbatim>\<open>String.prototype.toUpperCase\<close> on ASCII text, character by character. Outside ASCII
  the method also changes letters and may change the length, which is not modelled: the
  statements about names assume that the segments are ASCII (\<open>isAscii\<close>).
\<close>

definition isAscii :: "string \<Rightarrow> bool" where
  "isAscii s = (\<forall>c \<in> set s. \<not> digit7 c)"

definition toUpperChar :: "char \<Rightarrow> char" where
  "toUpperChar c =
     (case map_of (zip ''abcdefghijklmnopqrstuvwxyz'' ''ABCDEFGHIJKLMNOPQRSTUVWXYZ'') c of
        Some u \<Rightarrow> u
      | None \<Rightarrow> c)"

definition toUpperCase :: "string \<Rightarrow> string" where
  "toUpperCase s = map toUpperChar s"

text \<open>\<^verbatim>\<open>Array.prototype.join\<close>.\<close>

fun join :: "string \<Rightarrow> string list \<Rightarrow> string" where
  "join sep [] = []"
| "join sep [x] = x"
| "join sep (x # xs) = x @ sep @ join sep xs"

text \<open>\<^verbatim>\<open>readEnvValue\<close> (config.ts:181--184).\<close>

definition envVarName :: "string list \<Rightarrow> string" where
  "envVarName path = join ''_'' (map toUpperCase path)"

definition readEnvValue :: "env \<Rightarrow> string list \<Rightarrow> string option" where
  "readEnvValue env path = env (envVarName path)"

text \<open>
  The \<^verbatim>\<open>path.reduce\<close> of config.ts:195--203, which walks \<open>input\<close> along the path and
  mutates it in place; the model returns the updated record. At the last index the value
  is stored; before it, \<^verbatim>\<open>input[key] = input[key] ?? {}\<close> keeps what is there unless it
  is nullish, and the walk goes on inside it. The resolver stores only strings and the
  records it creates, so the only other own value the walk can meet is a string, and
  assigning a property on a string raises \<open>TypeError\<close>.

  \<^verbatim>\<open>input[key]\<close> also reads the members inherited from \<^verbatim>\<open>Object.prototype\<close>: for a key
  such as \<^verbatim>\<open>constructor\<close> the walk would go on inside a built-in function, and a value
  assigned to \<^verbatim>\<open>__proto__\<close> is not stored. \<open>writePath\<close> describes the walk for the other
  keys only (\<open>plainKey\<close>), and the statements about the resolver assume that the schema
  has only such keys.
\<close>

definition objectPrototypeMembers :: "string list" where
  "objectPrototypeMembers =
     [''constructor'', ''hasOwnProperty'', ''isPrototypeOf'', ''propertyIsEnumerable'',
      ''toLocaleString'', ''toString'', ''valueOf'', ''__proto__'',
      ''__defineGetter__'', ''__defineSetter__'', ''__lookupGetter__'', ''__lookupSetter__'']"

definition plainKey :: "string \<Rightarrow> bool" where
  "plainKey key = (key \<notin> set objectPrototypeMembers)"

fun writePath :: "string list \<Rightarrow> string \<Rightarrow> jrecord \<Rightarrow> error + jrecord" where
  "writePath [] value input = Inr input"
| "writePath [key] value input = Inr (AList.update key (JStr value) input)"
| "writePath (key # rest) value input =
     (case map_of input key of
        None \<Rightarrow>
          (case writePath rest value [] of
             Inl e \<Rightarrow> Inl e
           | Inr child \<Rightarrow> Inr (AList.update key (JObj child) input))
      | Some JNull \<Rightarrow>
          (case writePath rest value [] of
             Inl e \<Rightarrow> Inl e
           | Inr child \<Rightarrow> Inr (AList.update key (JObj child) input))
      | Some (JObj child) \<Rightarrow>
          (case writePath rest value child of
             Inl e \<Rightarrow> Inl e
           | Inr child' \<Rightarrow> Inr (AList.update key (JObj child') input))
      | Some _ \<Rightarrow> Inl TypeError)"

text \<open>
  \<^verbatim>\<open>readEnv\<close> (config.ts:186--206), threading the record \<open>input\<close> it fills;
  \<open>readEnv_shape\<close> is its \<^verbatim>\<open>for (const key in schema.shape)\<close> loop.
\<close>

fun readEnv :: "env \<Rightarrow> string list \<Rightarrow> zod \<Rightarrow> jrecord \<Rightarrow> error + jrecord"
  and readEnv_shape ::
    "env \<Rightarrow> string list \<Rightarrow> (string \<times> zod) list \<Rightarrow> jrecord \<Rightarrow> error + jrecord"
where
  "readEnv env path (ZodObject shape) input = readEnv_shape env path shape input"
| "readEnv env path schema input =
     (case readEnvValue env path of
        None \<Rightarrow> Inr input
      | Some value \<Rightarrow> writePath path value input)"
| "readEnv_shape env path [] input = Inr input"
| "readEnv_shape env path ((key, schema) # rest) input =
     (case readEnv env (path @ [key]) schema input of
        Inl e \<Rightarrow> Inl e
      | Inr input' \<Rightarrow> readEnv_shape env path rest input')"

text \<open>\<^verbatim>\<open>Config.readInEnv\<close> (config.ts:176--211).\<close>

definition readInEnv :: "bool \<Rightarrow> env \<Rightarrow> zod \<Rightarrow> error + jrecord" where
  "readInEnv readFromEnv env schema =
     (if \<not> readFromEnv then Inr [] else readEnv env [] schema [])"

text \<open>
  Notions the statements about the resolver use. A schema is well formed when no object
  node names a child twice (a JavaScript \<^verbatim>\<open>shape\<close> cannot) and every child name is a plain
  key in ASCII; the children behind a wrapper are never visited, so nothing is asked of
  them. \<open>leafPaths\<close> lists the paths at which the traversal stops, and \<open>lookupPath\<close> reads
  a record at a path.
\<close>

fun wf_zod :: "zod \<Rightarrow> bool" where
  "wf_zod (ZodObject shape) =
     (distinct (map fst shape) \<and>
      (\<forall>x \<in> set shape. plainKey (fst x) \<and> isAscii (fst x) \<and> wf_zod (snd x)))"
| "wf_zod _ = True"

fun leafPaths :: "zod \<Rightarrow> string list list" where
  "leafPaths (ZodObject shape) =
     concat (map (\<lambda>x. map ((#) (fst x)) (leafPaths (snd x))) shape)"
| "leafPaths _ = [[]]"

fun lookupPath :: "string list \<Rightarrow> jrecord \<Rightarrow> jv option" where
  "lookupPath [] r = None"
| "lookupPath [key] r = map_of r key"
| "lookupPath (key # rest) r =
     (case map_of r key of Some (JObj child) \<Rightarrow> lookupPath rest child | _ \<Rightarrow> None)"

text \<open>
  Three notions for the proofs. \<open>writable p r\<close> says that the walk of \<open>writePath\<close> along
  \<open>p\<close> meets no string before its last step. \<open>writeAll\<close> is the traversal flattened: the
  leaf paths visited in order, each read from the environment and written. A list of
  paths is pairwise parallel when none is a prefix of another.
\<close>

fun writable :: "string list \<Rightarrow> jrecord \<Rightarrow> bool" where
  "writable [] r = True"
| "writable [key] r = True"
| "writable (key # rest) r =
     (case map_of r key of
        None \<Rightarrow> True
      | Some JNull \<Rightarrow> True
      | Some (JObj child) \<Rightarrow> writable rest child
      | Some _ \<Rightarrow> False)"

fun writeAll :: "env \<Rightarrow> string list list \<Rightarrow> jrecord \<Rightarrow> error + jrecord" where
  "writeAll env [] input = Inr input"
| "writeAll env (p # ps) input =
     (case (case readEnvValue env p of
              None \<Rightarrow> Inr input
            | Some value \<Rightarrow> writePath p value input) of
        Inl e \<Rightarrow> Inl e
      | Inr input' \<Rightarrow> writeAll env ps input')"

fun pairwise_parallel :: "string list list \<Rightarrow> bool" where
  "pairwise_parallel [] = True"
| "pairwise_parallel (p # ps) = ((\<forall>q \<in> set ps. p \<parallel> q) \<and> pairwise_parallel ps)"

section \<open>Source collector\<close>

text \<open>
  The fields of \<^verbatim>\<open>class Config\<close> (config.ts:25--33) and its three builder methods;
  each field carries the prefix \<open>cfg_\<close> here.
\<close>

record Config =
  cfg_schema :: zod
  cfg_files :: "string list"
  cfg_values :: "jrecord list"
  cfg_readFromEnv :: bool

definition newConfig :: "zod \<Rightarrow> Config" where
  "newConfig s = \<lparr>cfg_schema = s, cfg_files = [], cfg_values = [], cfg_readFromEnv = False\<rparr>"

definition readValue :: "jrecord list \<Rightarrow> Config \<Rightarrow> Config" where
  "readValue vs c = c\<lparr>cfg_values := cfg_values c @ vs\<rparr>"

definition readFile :: "string list \<Rightarrow> Config \<Rightarrow> Config" where
  "readFile filePaths c = c\<lparr>cfg_files := cfg_files c @ filePaths\<rparr>"

text \<open>The method \<^verbatim>\<open>Config.readEnv\<close> (config.ts:69), which only sets the flag.\<close>

definition Config_readEnv :: "Config \<Rightarrow> Config" where
  "Config_readEnv c = c\<lparr>cfg_readFromEnv := True\<rparr>"

text \<open>A chain of builder calls, applied in the order written.\<close>

datatype call = ReadValue "jrecord list" | ReadFile "string list" | ReadEnv

fun apply_call :: "Config \<Rightarrow> call \<Rightarrow> Config" where
  "apply_call c (ReadValue vs) = readValue vs c"
| "apply_call c (ReadFile filePaths) = readFile filePaths c"
| "apply_call c ReadEnv = Config_readEnv c"

definition build :: "zod \<Rightarrow> call list \<Rightarrow> Config" where
  "build s calls = foldl apply_call (newConfig s) calls"

fun valuesOf :: "call list \<Rightarrow> jrecord list" where
  "valuesOf [] = []"
| "valuesOf (ReadValue vs # calls) = vs @ valuesOf calls"
| "valuesOf (_ # calls) = valuesOf calls"

fun filesOf :: "call list \<Rightarrow> string list" where
  "filesOf [] = []"
| "filesOf (ReadFile filePaths # calls) = filePaths @ filesOf calls"
| "filesOf (_ # calls) = filesOf calls"

section \<open>Loader\<close>

text \<open>
  The file system maps a path to the bytes of the file, or to nothing when the read fails.
  The bytes are kept as what \<^verbatim>\<open>JSON.parse(data.toString())\<close> makes of them: a value, or a
  \<open>SyntaxError\<close>.
\<close>

datatype buffer = JsonText jv | NotJson

type_synonym filesystem = "string \<rightharpoonup> buffer"

definition readFileSync :: "filesystem \<Rightarrow> string \<Rightarrow> error + buffer" where
  "readFileSync fs p = (case fs p of None \<Rightarrow> Inl (ReadError p) | Some data \<Rightarrow> Inr data)"

text \<open>
  \<^verbatim>\<open>parseFile\<close> (config.ts:168): \<^verbatim>\<open>z.object({}).passthrough().parse\<close> accepts exactly the
  objects and returns a new object with their keys and values, except that it does not
  return a key \<^verbatim>\<open>__proto__\<close> of the parsed object as an own key.
\<close>

fun parseFile :: "buffer \<Rightarrow> error + jrecord" where
  "parseFile NotJson = Inl SyntaxError"
| "parseFile (JsonText (JObj r)) = Inr (filter (\<lambda>x. fst x \<noteq> ''__proto__'') r)"
| "parseFile (JsonText v) = Inl (ZodError [ZodIssue ''invalid_type'' []])"

text \<open>\<^verbatim>\<open>this.files.map(path => this.parseFile(readFileSync(path)))\<close>: the first failure aborts.\<close>

fun readAllSync :: "filesystem \<Rightarrow> string list \<Rightarrow> error + jrecord list" where
  "readAllSync fs [] = Inr []"
| "readAllSync fs (p # ps) =
     (case readFileSync fs p of
        Inl e \<Rightarrow> Inl e
      | Inr data \<Rightarrow>
          (case parseFile data of
             Inl e \<Rightarrow> Inl e
           | Inr r \<Rightarrow>
               (case readAllSync fs ps of
                  Inl e \<Rightarrow> Inl e
                | Inr rs \<Rightarrow> Inr (r # rs))))"

definition readInFilesSync :: "Config \<Rightarrow> filesystem \<Rightarrow> error + jrecord" where
  "readInFilesSync c fs =
     (case readAllSync fs (cfg_files c) of Inl e \<Rightarrow> Inl e | Inr rs \<Rightarrow> Inr (deepMerge rs))"

definition readInValues :: "Config \<Rightarrow> jrecord" where
  "readInValues c = deepMerge (cfg_values c)"

text \<open>\<^verbatim>\<open>getInput\<close> (config.ts:137): the three arguments are evaluated left to right.\<close>

definition getInput :: "Config \<Rightarrow> filesystem \<Rightarrow> env \<Rightarrow> error + jrecord" where
  "getInput c fs env =
     (let vs = readInValues c in
      case readInFilesSync c fs of
        Inl e \<Rightarrow> Inl e
      | Inr fileInput \<Rightarrow>
          (case readInEnv (cfg_readFromEnv c) env (cfg_schema c) of
             Inl e \<Rightarrow> Inl e
           | Inr envInput \<Rightarrow> Inr (deepMerge [vs, fileInput, envInput])))"

text \<open>
  The precedence rule in the words of the specification, for one key: the value of the
  later tier overrides that of the earlier tier, except that two records combine by deep
  merge; a tier without the key leaves the earlier value.
\<close>

fun override :: "jv option \<Rightarrow> jv option \<Rightarrow> jv option" where
  "override earlier None = earlier"
| "override (Some (JObj a)) (Some (JObj b)) = Some (JObj (deepMerge [a, b]))"
| "override earlier (Some v) = Some v"

text \<open>
  \<^verbatim>\<open>readInFiles\<close> (config.ts:149): one promise per file, joined by \<^verbatim>\<open>Promise.all\<close>.
  \<open>order\<close> is the order in which the reads complete, given as indices into the list of
  files. A completed read that failed rejects its promise, and with it the whole
  \<^verbatim>\<open>Promise.all\<close>; a read that succeeded runs \<^verbatim>\<open>parseFile\<close> inside the file-system
  callback, where an exception is caught by no promise; otherwise the record is stored in
  the slot of its promise. \<^verbatim>\<open>Promise.all\<close> resolves with the slots, in the order of the
  promises, once each is filled.
\<close>

datatype 'a async = Resolved 'a | Rejected error | Uncaught error | Pending

fun settle ::
  "filesystem \<Rightarrow> string list \<Rightarrow> nat list \<Rightarrow> jrecord option list \<Rightarrow> jrecord list async"
where
  "settle fs paths [] slots =
     (case those slots of None \<Rightarrow> Pending | Some rs \<Rightarrow> Resolved rs)"
| "settle fs paths (i # order) slots =
     (if i < length paths then
        (case fs (paths ! i) of
           None \<Rightarrow> Rejected (ReadError (paths ! i))
         | Some data \<Rightarrow>
             (case parseFile data of
                Inl e \<Rightarrow> Uncaught e
              | Inr r \<Rightarrow> settle fs paths order (slots[i := Some r])))
      else settle fs paths order slots)"

definition readInFiles :: "nat list \<Rightarrow> Config \<Rightarrow> filesystem \<Rightarrow> jrecord async" where
  "readInFiles order c fs =
     (case settle fs (cfg_files c) order (replicate (length (cfg_files c)) None) of
        Resolved rs \<Rightarrow> Resolved (deepMerge rs)
      | Rejected e \<Rightarrow> Rejected e
      | Uncaught e \<Rightarrow> Uncaught e
      | Pending \<Rightarrow> Pending)"

text \<open>\<^verbatim>\<open>getInputAsync\<close> (config.ts:129); the environment is read after the files are awaited.\<close>

definition getInputAsync :: "nat list \<Rightarrow> Config \<Rightarrow> filesystem \<Rightarrow> env \<Rightarrow> jrecord async" where
  "getInputAsync order c fs env =
     (let vs = readInValues c in
      case readInFiles order c fs of
        Resolved fileInput \<Rightarrow>
          (case readInEnv (cfg_readFromEnv c) env (cfg_schema c) of
             Inl e \<Rightarrow> Rejected e
           | Inr envInput \<Rightarrow> Resolved (deepMerge [vs, fileInput, envInput]))
      | Rejected e \<Rightarrow> Rejected e
      | Uncaught e \<Rightarrow> Uncaught e
      | Pending \<Rightarrow> Pending)"

text \<open>
  The validator is the schema's own \<^verbatim>\<open>safeParse\<close>, a collaborator of the loader: it is a
  parameter \<open>validate\<close>, which maps the schema and the merged input to the discriminated
  outcome. \<^verbatim>\<open>Config.safeParse\<close> (config.ts:123) and \<^verbatim>\<open>Config.safeParseAsync\<close>
  (config.ts:96) compute the input and hand it over.
\<close>

datatype 'a SafeParseReturnType = SafeParseSuccess 'a | SafeParseError "ZodIssue list"

definition safeParse ::
  "(zod \<Rightarrow> jrecord \<Rightarrow> 'a SafeParseReturnType) \<Rightarrow> Config \<Rightarrow> filesystem \<Rightarrow> env
     \<Rightarrow> error + 'a SafeParseReturnType"
where
  "safeParse validate c fs env =
     (case getInput c fs env of
        Inl e \<Rightarrow> Inl e
      | Inr input \<Rightarrow> Inr (validate (cfg_schema c) input))"

definition safeParseAsync ::
  "(zod \<Rightarrow> jrecord \<Rightarrow> 'a SafeParseReturnType) \<Rightarrow> nat list \<Rightarrow> Config \<Rightarrow> filesystem \<Rightarrow> env
     \<Rightarrow> 'a SafeParseReturnType async"
where
  "safeParseAsync validate order c fs env =
     (case getInputAsync order c fs env of
        Resolved input \<Rightarrow> Resolved (validate (cfg_schema c) input)
      | Rejected e \<Rightarrow> Rejected e
      | Uncaught e \<Rightarrow> Uncaught e
      | Pending \<Rightarrow> Pending)"

section \<open>The resolver of the revised naming convention\<close>





fun readEnvBy ::
    "(string list \<Rightarrow> string) \<Rightarrow> env \<Rightarrow> string list \<Rightarrow> zod \<Rightarrow> jrecord \<Rightarrow> error + jrecord"
  and readEnvBy_shape ::
    "(string list \<Rightarrow> string) \<Rightarrow> env \<Rightarrow> string list \<Rightarrow> (string \<times> zod) list \<Rightarrow> jrecord
       \<Rightarrow> error + jrecord"
where
  "readEnvBy name env path (ZodObject shape) input = readEnvBy_shape name env path shape input"
| "readEnvBy name env path schema input =
     (case env (name path) of
        None \<Rightarrow> Inr input
      | Some value \<Rightarrow> writePath path value input)"
| "readEnvBy_shape name env path [] input = Inr input"
| "readEnvBy_shape name env path ((key, schema) # rest) input =
     (case readEnvBy name env (path @ [key]) schema input of
        Inl e \<Rightarrow> Inl e
      | Inr input' \<Rightarrow> readEnvBy_shape name env path rest input')"


section \<open>Properties of deep merge\<close>

lemmas wf_simps = plainKey_def isAscii_def objectPrototypeMembers_def

lemma update_fresh: "k \<notin> fst ` set al \<Longrightarrow> AList.update k v al = al @ [(k, v)]"
  by (induction al) auto

lemma reducer_fresh:
  "distinct (map fst obj) \<Longrightarrow> fst ` set obj \<inter> fst ` set out = {}
     \<Longrightarrow> reducer out obj = out @ obj"
proof (induction obj arbitrary: out)
  case Nil
  then show ?case by simp
next
  case (Cons e obj)
  obtain k v where e: "e = (k, v)" by (cases e)
  have fresh: "k \<notin> fst ` set out" using Cons.prems(2) e by auto
  then have none: "map_of out k = None" by (simp add: map_of_eq_None_iff)
  have step: "reducer out (e # obj) = reducer (out @ [(k, v)]) obj"
    using none update_fresh[OF fresh] e by simp
  have "fst ` set obj \<inter> fst ` set (out @ [(k, v)]) = {}"
    using Cons.prems e by auto
  moreover have "distinct (map fst obj)" using Cons.prems(1) by simp
  ultimately show ?case using Cons.IH step e by simp
qed

lemma reducer_empty: "distinct (map fst obj) \<Longrightarrow> reducer [] obj = obj"
  using reducer_fresh[of obj "[]"] by simp

lemma distinct_reducer:
  "distinct (map fst out) \<Longrightarrow> distinct (map fst (reducer out obj))"
proof (induction obj arbitrary: out)
  case Nil
  then show ?case by simp
next
  case (Cons e obj)
  obtain k v where e: "e = (k, v)" by (cases e)
  show ?case unfolding e
    by (simp split: option.splits jv.splits add: Cons.IH Cons.prems distinct_update)
qed

lemma distinct_foldl_reducer:
  "distinct (map fst acc) \<Longrightarrow> distinct (map fst (foldl reducer acc objects))"
  by (induction objects arbitrary: acc) (simp_all add: distinct_reducer)

lemma distinct_deepMerge: "distinct (map fst (deepMerge objects))"
  by (simp add: deepMerge_def distinct_foldl_reducer)

lemma deepMerge_two: "deepMerge [a, b] = reducer (reducer [] a) b"
  by (simp add: deepMerge_def)

lemma deepMerge_of_merged: "reducer [] (deepMerge objects) = deepMerge objects"
  by (rule reducer_empty[OF distinct_deepMerge])

lemma map_of_reducer:
  "distinct (map fst obj) \<Longrightarrow>
   map_of (reducer out obj) k =
     (case map_of obj k of
        None \<Rightarrow> map_of out k
      | Some v \<Rightarrow>
          (case (map_of out k, v) of
             (Some (JObj a), JObj b) \<Rightarrow> Some (JObj (deepMerge [a, b]))
           | _ \<Rightarrow> Some v))"
proof (induction obj arbitrary: out)
  case Nil
  then show ?case by simp
next
  case (Cons e obj)
  obtain k' v' where e: "e = (k', v')" by (cases e)
  have d: "distinct (map fst obj)" and nk: "k' \<notin> fst ` set obj"
    using Cons.prems e by auto
  have none: "map_of obj k' = None" using nk by (simp add: map_of_eq_None_iff)
  define out' where "out' = (case (map_of out k', v') of
          (Some (JObj a), JObj b) \<Rightarrow> AList.update k' (JObj (reducer (reducer [] a) b)) out
        | _ \<Rightarrow> AList.update k' v' out)"
  have unfold: "reducer out (e # obj) = reducer out' obj"
    unfolding e out'_def by simp
  note IH = Cons.IH[OF d, of out']
  show ?case
  proof (cases "k = k'")
    case True
    have "map_of out' k' =
        (case (map_of out k', v') of
           (Some (JObj a), JObj b) \<Rightarrow> Some (JObj (deepMerge [a, b]))
         | _ \<Rightarrow> Some v')"
      unfolding out'_def
      by (simp add: update_conv' deepMerge_two split: option.splits jv.splits)
    then show ?thesis unfolding unfold IH using True none by (simp add: e)
  next
    case False
    have "map_of out' k = map_of out k"
      unfolding out'_def using False
      by (simp add: update_conv' split: option.splits jv.splits)
    then show ?thesis unfolding unfold IH using False by (simp add: e split: option.splits)
  qed
qed

text \<open>
  Claim C2. Deep merge is associative in application order: for all plain records \<open>A\<close>,
  \<open>B\<close> and \<open>C\<close>, merging the list \<open>[A, B, C]\<close> gives the same record as merging \<open>A\<close> and
  \<open>B\<close> first and then merging the result with \<open>C\<close>.
\<close>

theorem deepMerge_assoc:
  assumes "plain (JObj A)" and "plain (JObj B)" and "plain (JObj C)"
  shows "deepMerge [A, B, C] = deepMerge [deepMerge [A, B], C]"
proof -
  have "deepMerge [deepMerge [A, B], C] = reducer (reducer [] (deepMerge [A, B])) C"
    by (simp add: deepMerge_def)
  also have "\<dots> = reducer (deepMerge [A, B]) C"
    by (simp only: deepMerge_of_merged)
  also have "\<dots> = deepMerge [A, B, C]"
    by (simp add: deepMerge_def)
  finally show ?thesis by simp
qed

theorem deepMerge_assoc_witness:
  "plain (JObj [(''a'', JObj [(''x'', JNum 1)]), (''n'', JNum 0)]) \<and>
   plain (JObj [(''a'', JObj [(''y'', JNum 2)])]) \<and>
   plain (JObj [(''n'', JArr [JNum 3])]) \<and>
   deepMerge [[(''a'', JObj [(''x'', JNum 1)]), (''n'', JNum 0)],
              [(''a'', JObj [(''y'', JNum 2)])],
              [(''n'', JArr [JNum 3])]]
     = [(''a'', JObj [(''x'', JNum 1), (''y'', JNum 2)]), (''n'', JArr [JNum 3])] \<and>
   deepMerge [deepMerge [[(''a'', JObj [(''x'', JNum 1)]), (''n'', JNum 0)],
                         [(''a'', JObj [(''y'', JNum 2)])]],
              [(''n'', JArr [JNum 3])]]
     = [(''a'', JObj [(''x'', JNum 1), (''y'', JNum 2)]), (''n'', JArr [JNum 3])]"
proof -
  let ?A = "[(''a'', JObj [(''x'', JNum 1)]), (''n'', JNum 0)]"
  let ?B = "[(''a'', JObj [(''y'', JNum 2)])]"
  let ?C = "[(''n'', JArr [JNum 3])]"
  have pa: "plain (JObj ?A)" and pb: "plain (JObj ?B)" and pc: "plain (JObj ?C)"
    by simp_all
  have l: "deepMerge [?A, ?B, ?C]
     = [(''a'', JObj [(''x'', JNum 1), (''y'', JNum 2)]), (''n'', JArr [JNum 3])]"
    by (simp add: deepMerge_def)
  have r: "deepMerge [deepMerge [?A, ?B], ?C]
     = [(''a'', JObj [(''x'', JNum 1), (''y'', JNum 2)]), (''n'', JArr [JNum 3])]"
    using deepMerge_assoc[OF pa pb pc] l by simp
  show ?thesis using pa pb pc l r by blast
qed

text \<open>
  Claim C3. In deep merge of plain records, for every key of the current input, the values
  are merged recursively only when both the accumulated value and the input's value at
  that key are records; in every other case (a scalar or an array on either side, two
  arrays, or no accumulated value) the input's value replaces the accumulated one as a
  whole.
\<close>

theorem reducer_merges_only_two_records:
  assumes "distinct (map fst obj)" and "map_of obj key = Some objectValue"
    and "plain (JObj out)" and "plain (JObj obj)"
  shows "(\<forall>a b. map_of out key = Some (JObj a) \<and> objectValue = JObj b \<longrightarrow>
            map_of (reducer out obj) key = Some (JObj (deepMerge [a, b]))) \<and>
         (\<not> (isRecord (map_of out key) \<and> isRecord (Some objectValue)) \<longrightarrow>
            map_of (reducer out obj) key = Some objectValue)"
proof (intro conjI allI impI)
  fix a b
  assume "map_of out key = Some (JObj a) \<and> objectValue = JObj b"
  then show "map_of (reducer out obj) key = Some (JObj (deepMerge [a, b]))"
    using assms(1,2) by (simp add: map_of_reducer)
next
  assume n: "\<not> (isRecord (map_of out key) \<and> isRecord (Some objectValue))"
  have "\<not> (\<exists>a b. map_of out key = Some (JObj a) \<and> objectValue = JObj b)"
    using n by auto
  then show "map_of (reducer out obj) key = Some objectValue"
    using assms(1,2) by (auto simp add: map_of_reducer split: option.splits jv.splits)
qed

theorem reducer_merges_only_two_records_witness:
  "plain (JObj [(''a'', JArr [JNum 1, JNum 2]), (''o'', JObj [(''x'', JNum 1)])]) \<and>
   plain (JObj [(''a'', JArr [JNum 3]), (''o'', JObj [(''y'', JNum 2)])]) \<and>
   deepMerge [[(''a'', JArr [JNum 1, JNum 2])], [(''a'', JArr [JNum 3])]]
     = [(''a'', JArr [JNum 3])] \<and>
   map_of (reducer [(''a'', JArr [JNum 1, JNum 2]), (''o'', JObj [(''x'', JNum 1)])]
                   [(''a'', JArr [JNum 3]), (''o'', JObj [(''y'', JNum 2)])]) ''a''
     = Some (JArr [JNum 3]) \<and>
   map_of (reducer [(''a'', JArr [JNum 1, JNum 2]), (''o'', JObj [(''x'', JNum 1)])]
                   [(''a'', JArr [JNum 3]), (''o'', JObj [(''y'', JNum 2)])]) ''o''
     = Some (JObj [(''x'', JNum 1), (''y'', JNum 2)])"
proof -
  let ?out = "[(''a'', JArr [JNum 1, JNum 2]), (''o'', JObj [(''x'', JNum 1)])]"
  let ?obj = "[(''a'', JArr [JNum 3]), (''o'', JObj [(''y'', JNum 2)])]"
  have d: "distinct (map fst ?obj)" by simp
  have po: "plain (JObj ?out)" and pb: "plain (JObj ?obj)" by simp_all
  have ma: "map_of ?obj ''a'' = Some (JArr [JNum 3])" by simp
  have mo: "map_of ?obj ''o'' = Some (JObj [(''y'', JNum 2)])" by simp
  have 1: "map_of (reducer ?out ?obj) ''a'' = Some (JArr [JNum 3])"
    using reducer_merges_only_two_records[OF d ma po pb] by simp
  have 2: "map_of (reducer ?out ?obj) ''o'' = Some (JObj [(''x'', JNum 1), (''y'', JNum 2)])"
    using reducer_merges_only_two_records[OF d mo po pb] by (simp add: deepMerge_def)
  have 3: "deepMerge [[(''a'', JArr [JNum 1, JNum 2])], [(''a'', JArr [JNum 3])]]
     = [(''a'', JArr [JNum 3])]"
    by (simp add: deepMerge_def)
  show ?thesis using po pb 1 2 3 by blast
qed

section \<open>Properties of the environment resolver\<close>

lemma writePath_empty: "\<exists>out. writePath p v [] = Inr out"
proof (induction p)
  case Nil
  then show ?case by simp
next
  case (Cons k rest)
  then show ?case by (cases rest) auto
qed

lemma writable_writePath: "writable p input \<Longrightarrow> \<exists>out. writePath p v input = Inr out"
proof (induction p v input rule: writePath.induct)
  case (1 "value" input)
  then show ?case by simp
next
  case (2 key "value" input)
  then show ?case by simp
next
  case (3 key k' rest "value" input)
  show ?case
  proof (cases "map_of input key")
    case None
    then show ?thesis using writePath_empty[of "k' # rest" "value"] by auto
  next
    case (Some x)
    show ?thesis
    proof (cases x)
      case JNull
      then show ?thesis using Some writePath_empty[of "k' # rest" "value"] by auto
    next
      case (JObj child)
      then have "writable (k' # rest) child" using "3.prems" Some by simp
      from "3.IH"(3)[OF Some JObj this] show ?thesis using Some JObj by auto
    qed (use "3.prems" Some in auto)
  qed
qed

lemma writeAll_append:
  "writeAll env (ps @ qs) input =
     (case writeAll env ps input of Inl e \<Rightarrow> Inl e | Inr input' \<Rightarrow> writeAll env qs input')"
  by (induction ps arbitrary: input) (auto split: sum.splits option.splits)

lemma leafPaths_Cons:
  "map ((@) path) (leafPaths (ZodObject ((key, s) # rest)))
     = map ((@) (path @ [key])) (leafPaths s) @ map ((@) path) (leafPaths (ZodObject rest))"
  by simp

lemma readEnv_writeAll:
  "readEnv env path s input = writeAll env (map ((@) path) (leafPaths s)) input"
  "readEnv_shape env path shape input
     = writeAll env (map ((@) path) (leafPaths (ZodObject shape))) input"
proof (induction env path s input and env path shape input rule: readEnv_readEnv_shape.induct)
  case (4 env path key s rest input)
  show ?case
  proof (cases "readEnv env (path @ [key]) s input")
    case (Inl e)
    then show ?thesis
      using "4.IH"(1) by (simp only: leafPaths_Cons writeAll_append readEnv.simps) simp
  next
    case (Inr b)
    then show ?thesis
      using "4.IH"(1) "4.IH"(2)[OF Inr]
      by (simp only: leafPaths_Cons writeAll_append readEnv.simps) simp
  qed
qed (simp_all split: option.splits sum.splits)

lemma parallel_Cons_same: "(k # p) \<parallel> (k # q) \<longleftrightarrow> p \<parallel> q"
  by (simp add: parallel_def)

lemma parallel_heads:
  assumes "(k # p) \<parallel> (k' # q)" and "k = k'"
  shows "p \<parallel> q"
  using assms by (simp add: parallel_def)

lemma lookupPath_empty: "lookupPath q [] = None"
  by (induction q "[] :: jrecord" rule: lookupPath.induct) simp_all

lemma lookupPath_written:
  "p \<noteq> [] \<Longrightarrow> writePath p v input = Inr out \<Longrightarrow> lookupPath p out = Some (JStr v)"
proof (induction p v input arbitrary: out rule: writePath.induct)
  case (1 "value" input)
  then show ?case by simp
next
  case (2 key "value" input)
  then show ?case by (auto simp: update_conv')
next
  case (3 key k' rest "value" input)
  show ?case
  proof (cases "map_of input key")
    case None
    then obtain child where c: "writePath (k' # rest) value [] = Inr child"
        and o: "out = AList.update key (JObj child) input"
      using "3.prems"(2) by (auto split: sum.splits)
    from "3.IH"(1)[OF None _ c] show ?thesis using o by (simp add: update_conv')
  next
    case (Some x)
    show ?thesis
    proof (cases x)
      case JNull
      then obtain child where c: "writePath (k' # rest) value [] = Inr child"
          and o: "out = AList.update key (JObj child) input"
        using "3.prems"(2) Some by (auto split: sum.splits)
      from "3.IH"(2)[OF Some JNull _ c] show ?thesis using o by (simp add: update_conv')
    next
      case (JObj ch)
      then obtain child where c: "writePath (k' # rest) value ch = Inr child"
          and o: "out = AList.update key (JObj child) input"
        using "3.prems"(2) Some by (auto split: sum.splits)
      from "3.IH"(3)[OF Some JObj _ c] show ?thesis using o by (simp add: update_conv')
    qed (use "3.prems" Some in auto)
  qed
qed


lemma writePath_ConsE:
  assumes "writePath (key # k' # rest) v input = Inr out"
  obtains ch child where
    "map_of input key = None \<and> ch = [] \<or> map_of input key = Some JNull \<and> ch = []
       \<or> map_of input key = Some (JObj ch)"
    "writePath (k' # rest) v ch = Inr child"
    "out = AList.update key (JObj child) input"
  using assms by (auto split: option.splits jv.splits sum.splits)

lemma lookupPath_update_other:
  "k2 \<noteq> key \<Longrightarrow> lookupPath (k2 # q) (AList.update key x input) = lookupPath (k2 # q) input"
  by (cases q) (simp_all add: update_conv')

lemma lookupPath_update_same:
  "q \<noteq> [] \<Longrightarrow> lookupPath (key # q) (AList.update key (JObj child) input) = lookupPath q child"
  by (cases q) (simp_all add: update_conv')

lemma lookupPath_Cons_child:
  "q \<noteq> [] \<Longrightarrow> lookupPath (key # q) input =
     (case map_of input key of Some (JObj ch) \<Rightarrow> lookupPath q ch | _ \<Rightarrow> None)"
  by (cases q) (simp_all split: option.splits jv.splits)

lemma writable_update_other:
  "k2 \<noteq> key \<Longrightarrow> writable (k2 # q) (AList.update key x input) = writable (k2 # q) input"
  by (cases q) (simp_all add: update_conv')

lemma writable_update_same:
  "q \<noteq> [] \<Longrightarrow> writable (key # q) (AList.update key (JObj child) input) = writable q child"
  by (cases q) (simp_all add: update_conv')

lemma writable_Cons_child:
  "q \<noteq> [] \<Longrightarrow> writable (key # q) input =
     (case map_of input key of
        None \<Rightarrow> True | Some JNull \<Rightarrow> True | Some (JObj ch) \<Rightarrow> writable q ch | Some _ \<Rightarrow> False)"
  by (cases q) (simp_all split: option.splits jv.splits)

lemma writable_empty: "writable q []"
  by (induction q "[] :: jrecord" rule: writable.induct) simp_all

lemma parallel_single: "[key] \<parallel> q \<Longrightarrow> \<exists>k2 q'. q = k2 # q' \<and> k2 \<noteq> key"
  by (cases q) (auto simp: parallel_def)

lemma parallel_ConsD:
  "(key # p) \<parallel> q \<Longrightarrow> \<exists>k2 q'. q = k2 # q' \<and> (k2 \<noteq> key \<or> p \<parallel> q')"
  by (cases q) (auto simp: parallel_def)

lemma parallel_not_Nil: "p \<parallel> q \<Longrightarrow> q \<noteq> [] \<and> p \<noteq> []"
  by (auto simp: parallel_def)

lemma lookupPath_parallel:
  "p \<parallel> q \<Longrightarrow> writePath p v input = Inr out \<Longrightarrow> lookupPath q out = lookupPath q input"
proof (induction p v input arbitrary: out q rule: writePath.induct)
  case (1 "value" input)
  then show ?case by (simp add: parallel_def)
next
  case (2 key "value" input)
  from parallel_single[OF "2.prems"(1)] obtain k2 q' where q: "q = k2 # q'" "k2 \<noteq> key"
    by blast
  then show ?case using "2.prems"(2) by (auto simp: lookupPath_update_other)
next
  case (3 key k' rest "value" input)
  from parallel_ConsD[OF "3.prems"(1)] obtain k2 q' where
    q: "q = k2 # q'" and alt: "k2 \<noteq> key \<or> (k' # rest) \<parallel> q'"
    by blast
  from "3.prems"(2) obtain ch child where
    src: "map_of input key = None \<and> ch = [] \<or> map_of input key = Some JNull \<and> ch = []
       \<or> map_of input key = Some (JObj ch)"
    and w: "writePath (k' # rest) value ch = Inr child"
    and o: "out = AList.update key (JObj child) input"
    by (rule writePath_ConsE)
  show ?case
  proof (cases "k2 = key")
    case False
    then show ?thesis using q o by (simp add: lookupPath_update_other)
  next
    case True
    then have par: "(k' # rest) \<parallel> q'" using alt by simp
    then have ne: "q' \<noteq> []" using parallel_not_Nil by blast
    have inner: "lookupPath q' child = lookupPath q' ch"
      using src
    proof (elim disjE conjE)
      assume a: "map_of input key = None" "ch = []"
      from "3.IH"(1)[OF a(1) par] w a(2) show ?thesis by simp
    next
      assume a: "map_of input key = Some JNull" "ch = []"
      from "3.IH"(2)[OF a(1) refl par] w a(2) show ?thesis by simp
    next
      assume a: "map_of input key = Some (JObj ch)"
      from "3.IH"(3)[OF a refl par w] show ?thesis .
    qed
    have "lookupPath q out = lookupPath q' child"
      using q True o ne by (simp add: lookupPath_update_same)
    moreover have "lookupPath q input = lookupPath q' ch"
      using q True ne src by (auto simp: lookupPath_Cons_child lookupPath_empty)
    ultimately show ?thesis using inner by simp
  qed
qed

lemma writable_parallel:
  "p \<parallel> q \<Longrightarrow> writePath p v input = Inr out \<Longrightarrow> writable q out = writable q input"
proof (induction p v input arbitrary: out q rule: writePath.induct)
  case (1 "value" input)
  then show ?case by (simp add: parallel_def)
next
  case (2 key "value" input)
  from parallel_single[OF "2.prems"(1)] obtain k2 q' where q: "q = k2 # q'" "k2 \<noteq> key"
    by blast
  then show ?case using "2.prems"(2) by (auto simp: writable_update_other)
next
  case (3 key k' rest "value" input)
  from parallel_ConsD[OF "3.prems"(1)] obtain k2 q' where
    q: "q = k2 # q'" and alt: "k2 \<noteq> key \<or> (k' # rest) \<parallel> q'"
    by blast
  from "3.prems"(2) obtain ch child where
    src: "map_of input key = None \<and> ch = [] \<or> map_of input key = Some JNull \<and> ch = []
       \<or> map_of input key = Some (JObj ch)"
    and w: "writePath (k' # rest) value ch = Inr child"
    and o: "out = AList.update key (JObj child) input"
    by (rule writePath_ConsE)
  show ?case
  proof (cases "k2 = key")
    case False
    then show ?thesis using q o by (simp add: writable_update_other)
  next
    case True
    then have par: "(k' # rest) \<parallel> q'" using alt by simp
    then have ne: "q' \<noteq> []" using parallel_not_Nil by blast
    have inner: "writable q' child = writable q' ch"
      using src
    proof (elim disjE conjE)
      assume a: "map_of input key = None" "ch = []"
      from "3.IH"(1)[OF a(1) par] w a(2) show ?thesis by simp
    next
      assume a: "map_of input key = Some JNull" "ch = []"
      from "3.IH"(2)[OF a(1) refl par] w a(2) show ?thesis by simp
    next
      assume a: "map_of input key = Some (JObj ch)"
      from "3.IH"(3)[OF a refl par w] show ?thesis .
    qed
    have "writable q out = writable q' child"
      using q True o ne by (simp add: writable_update_same)
    moreover have "writable q input = writable q' ch"
      using q True ne src by (auto simp: writable_Cons_child writable_empty)
    ultimately show ?thesis using inner by simp
  qed
qed


lemma pairwise_parallel_append:
  "pairwise_parallel (ps @ qs) \<longleftrightarrow>
     pairwise_parallel ps \<and> pairwise_parallel qs \<and> (\<forall>p \<in> set ps. \<forall>q \<in> set qs. p \<parallel> q)"
  by (induction ps) auto

lemma pairwise_parallel_map_Cons:
  "pairwise_parallel (map ((#) k) ps) = pairwise_parallel ps"
  by (induction ps) (auto simp: parallel_Cons_same)

lemma parallel_diff_heads: "k \<noteq> k' \<Longrightarrow> (k # p) \<parallel> (k' # q)"
  by (simp add: parallel_def)

lemma leafPaths_heads:
  "p \<in> set (leafPaths (ZodObject shape)) \<Longrightarrow> \<exists>k r. p = k # r \<and> k \<in> fst ` set shape"
  by auto

lemma pairwise_parallel_shape:
  "distinct (map fst shape) \<Longrightarrow> (\<forall>x \<in> set shape. pairwise_parallel (leafPaths (snd x)))
     \<Longrightarrow> pairwise_parallel (leafPaths (ZodObject shape))"
proof (induction shape)
  case Nil
  then show ?case by simp
next
  case (Cons x shape)
  have rest: "pairwise_parallel (leafPaths (ZodObject shape))"
    using Cons by simp
  have block: "pairwise_parallel (map ((#) (fst x)) (leafPaths (snd x)))"
    using Cons.prems(2) by (simp add: pairwise_parallel_map_Cons)
  have cross: "\<forall>p \<in> set (map ((#) (fst x)) (leafPaths (snd x))).
                 \<forall>q \<in> set (leafPaths (ZodObject shape)). p \<parallel> q"
  proof (intro ballI)
    fix p q
    assume p: "p \<in> set (map ((#) (fst x)) (leafPaths (snd x)))"
      and q: "q \<in> set (leafPaths (ZodObject shape))"
    from p obtain r where pr: "p = fst x # r" by auto
    from leafPaths_heads[OF q] obtain k r' where qr: "q = k # r'" "k \<in> fst ` set shape"
      by blast
    have "fst x \<noteq> k" using Cons.prems(1) qr(2) by auto
    then show "p \<parallel> q" unfolding pr qr(1) by (rule parallel_diff_heads)
  qed
  have "leafPaths (ZodObject (x # shape))
          = map ((#) (fst x)) (leafPaths (snd x)) @ leafPaths (ZodObject shape)"
    by simp
  then show ?case using rest block cross by (simp only: pairwise_parallel_append)
qed

lemma pairwise_parallel_leafPaths: "wf_zod s \<Longrightarrow> pairwise_parallel (leafPaths s)"
proof (induction s rule: wf_zod.induct)
  case (1 shape)
  then show ?case using pairwise_parallel_shape[of shape] by simp
qed simp_all

lemma pairwise_parallel_map_append:
  "pairwise_parallel (map ((@) path) ps) = pairwise_parallel ps"
  by (induction ps) (auto simp: parallel_def)

lemma writeAll_spec:
  assumes "\<forall>p \<in> set ps. writable p input" and "pairwise_parallel ps"
  shows "\<exists>out. writeAll env ps input = Inr out \<and>
           (\<forall>q. (\<forall>p \<in> set ps. p \<parallel> q) \<longrightarrow>
                 lookupPath q out = lookupPath q input \<and> writable q out = writable q input) \<and>
           (\<forall>p \<in> set ps. p \<noteq> [] \<longrightarrow>
                 lookupPath p out =
                   (case readEnvValue env p of
                      Some v \<Rightarrow> Some (JStr v)
                    | None \<Rightarrow> lookupPath p input))"
  using assms
proof (induction ps arbitrary: input)
  case Nil
  then show ?case by simp
next
  case (Cons p ps)
  have par: "\<forall>q \<in> set ps. p \<parallel> q" and pp: "pairwise_parallel ps"
    using Cons.prems(2) by simp_all
  have wp: "writable p input" and wps: "\<forall>q \<in> set ps. writable q input"
    using Cons.prems(1) by simp_all
  show ?case
  proof (cases "readEnvValue env p")
    case None
    from Cons.IH[OF wps pp] obtain out where
      w: "writeAll env ps input = Inr out"
      and frame: "\<forall>q. (\<forall>p \<in> set ps. p \<parallel> q) \<longrightarrow>
                 lookupPath q out = lookupPath q input \<and> writable q out = writable q input"
      and vals: "\<forall>p \<in> set ps. p \<noteq> [] \<longrightarrow>
                 lookupPath p out =
                   (case readEnvValue env p of
                      Some v \<Rightarrow> Some (JStr v)
                    | None \<Rightarrow> lookupPath p input)"
      by blast
    have "\<forall>q \<in> set ps. q \<parallel> p" using par by (simp add: parallel_commute)
    then have "lookupPath p out = lookupPath p input" using frame by blast
    then show ?thesis using None w frame vals by auto
  next
    case (Some v)
    from writable_writePath[OF wp, of v] obtain mid where m: "writePath p v input = Inr mid"
      by blast
    have wmid: "\<forall>q \<in> set ps. writable q mid"
      using wps par writable_parallel[OF _ m] by blast
    from Cons.IH[OF wmid pp] obtain out where
      w: "writeAll env ps mid = Inr out"
      and frame: "\<forall>q. (\<forall>p \<in> set ps. p \<parallel> q) \<longrightarrow>
                 lookupPath q out = lookupPath q mid \<and> writable q out = writable q mid"
      and vals: "\<forall>p \<in> set ps. p \<noteq> [] \<longrightarrow>
                 lookupPath p out =
                   (case readEnvValue env p of
                      Some v \<Rightarrow> Some (JStr v)
                    | None \<Rightarrow> lookupPath p mid)"
      by blast
    have all: "writeAll env (p # ps) input = Inr out" using Some m w by simp
    have f2: "\<forall>q. (\<forall>p' \<in> set (p # ps). p' \<parallel> q) \<longrightarrow>
                 lookupPath q out = lookupPath q input \<and> writable q out = writable q input"
    proof (intro allI impI)
      fix q
      assume a: "\<forall>p' \<in> set (p # ps). p' \<parallel> q"
      then have "p \<parallel> q" and "\<forall>p' \<in> set ps. p' \<parallel> q" by simp_all
      then show "lookupPath q out = lookupPath q input \<and> writable q out = writable q input"
        using frame lookupPath_parallel[OF _ m] writable_parallel[OF _ m] by simp
    qed
    have "\<forall>q \<in> set ps. q \<parallel> p" using par by (simp add: parallel_commute)
    then have "lookupPath p out = lookupPath p mid" using frame by blast
    then have v1: "p \<noteq> [] \<longrightarrow> lookupPath p out = Some (JStr v)"
      using lookupPath_written[OF _ m] by simp
    have v2: "\<forall>p' \<in> set ps. p' \<noteq> [] \<longrightarrow>
                 lookupPath p' out =
                   (case readEnvValue env p' of
                      Some v \<Rightarrow> Some (JStr v)
                    | None \<Rightarrow> lookupPath p' input)"
    proof (intro ballI impI)
      fix p'
      assume a: "p' \<in> set ps" "p' \<noteq> []"
      then have "lookupPath p' mid = lookupPath p' input"
        using par lookupPath_parallel[OF _ m] by blast
      then show "lookupPath p' out =
                   (case readEnvValue env p' of
                      Some v \<Rightarrow> Some (JStr v)
                    | None \<Rightarrow> lookupPath p' input)"
        using vals a by (simp split: option.splits)
    qed
    show ?thesis using all f2 v1 v2 Some by auto
  qed
qed

lemma map_append_Nil: "map ((@) []) ps = ps"
  by (induction ps) simp_all

lemma readEnv_root: "readEnv env [] s input = writeAll env (leafPaths s) input"
  using readEnv_writeAll(1)[of env "[]" s input] by (simp only: map_append_Nil)

lemma readInEnv_total:
  assumes "wf_zod s"
  shows "\<exists>out. readInEnv b env s = Inr out"
proof (cases b)
  case False
  then show ?thesis by (simp add: readInEnv_def)
next
  case True
  have "\<forall>p \<in> set (leafPaths s). writable p []" by (simp add: writable_empty)
  from writeAll_spec[OF this pairwise_parallel_leafPaths[OF assms], of env]
  show ?thesis using True by (auto simp: readInEnv_def readEnv_root)
qed

lemma lookupPath_below_string:
  "strict_prefix p q \<Longrightarrow> p \<noteq> [] \<Longrightarrow> writePath p v input = Inr out \<Longrightarrow> lookupPath q out = None"
proof (induction p v input arbitrary: out q rule: writePath.induct)
  case (1 "value" input)
  then show ?case by simp
next
  case (2 key "value" input)
  from "2.prems"(1) obtain q' where q: "q = key # q'" "q' \<noteq> []"
    by (cases q) (auto simp: strict_prefix_def)
  have "out = AList.update key (JStr value) input" using "2.prems"(3) by simp
  then show ?case using q by (simp add: lookupPath_Cons_child update_conv')
next
  case (3 key k' rest "value" input)
  from "3.prems"(1) obtain q' where q: "q = key # q'" and sp: "strict_prefix (k' # rest) q'"
    by (cases q) (auto simp: strict_prefix_def)
  from sp have ne: "q' \<noteq> []" by (auto simp: strict_prefix_def)
  from "3.prems"(3) obtain ch child where
    src: "map_of input key = None \<and> ch = [] \<or> map_of input key = Some JNull \<and> ch = []
       \<or> map_of input key = Some (JObj ch)"
    and w: "writePath (k' # rest) value ch = Inr child"
    and o: "out = AList.update key (JObj child) input"
    by (rule writePath_ConsE)
  have inner: "lookupPath q' child = None"
    using src
  proof (elim disjE conjE)
    assume a: "map_of input key = None" "ch = []"
    from "3.IH"(1)[OF a(1) sp] w a(2) show ?thesis by simp
  next
    assume a: "map_of input key = Some JNull" "ch = []"
    from "3.IH"(2)[OF a(1) refl sp] w a(2) show ?thesis by simp
  next
    assume a: "map_of input key = Some (JObj ch)"
    from "3.IH"(3)[OF a refl sp _ w] show ?thesis by simp
  qed
  show ?case using q o ne inner by (simp add: lookupPath_update_same)
qed

lemma prefix_or_parallel: "prefix q p \<or> strict_prefix p q \<or> p \<parallel> q"
  by (auto simp: parallel_def strict_prefix_def)

lemma lookupPath_writePath_frame:
  assumes "writePath p v input = Inr out" and "lookupPath q out \<noteq> None"
  shows "lookupPath q input \<noteq> None \<or> prefix q p"
proof (cases "p = []")
  case True
  then show ?thesis using assms by simp
next
  case False
  from prefix_or_parallel[of q p] show ?thesis
  proof (elim disjE)
    assume "strict_prefix p q"
    from lookupPath_below_string[OF this False assms(1)] assms(2) show ?thesis by simp
  next
    assume "p \<parallel> q"
    from lookupPath_parallel[OF this assms(1)] assms(2) show ?thesis by simp
  qed simp
qed

lemma writeAll_frame:
  "writeAll env ps input = Inr out \<Longrightarrow> lookupPath q out \<noteq> None \<Longrightarrow>
     lookupPath q input \<noteq> None \<or> (\<exists>p \<in> set ps. prefix q p \<and> readEnvValue env p \<noteq> None)"
proof (induction ps arbitrary: input)
  case Nil
  then show ?case by simp
next
  case (Cons p ps)
  show ?case
  proof (cases "readEnvValue env p")
    case None
    then have "writeAll env ps input = Inr out" using Cons.prems(1) by simp
    from Cons.IH[OF this Cons.prems(2)] show ?thesis by auto
  next
    case (Some v)
    then obtain mid where m: "writePath p v input = Inr mid" and r: "writeAll env ps mid = Inr out"
      using Cons.prems(1) by (auto split: sum.splits)
    from Cons.IH[OF r Cons.prems(2)]
    have "lookupPath q mid \<noteq> None \<or> (\<exists>p \<in> set ps. prefix q p \<and> readEnvValue env p \<noteq> None)" .
    then show ?thesis
    proof
      assume "lookupPath q mid \<noteq> None"
      from lookupPath_writePath_frame[OF m this] show ?thesis using Some by auto
    qed auto
  qed
qed

lemma readInEnv_leaves:
  assumes "wf_zod (ZodObject shape)"
  shows "\<exists>out. readInEnv True env (ZodObject shape) = Inr out \<and>
           (\<forall>p \<in> set (leafPaths (ZodObject shape)).
               lookupPath p out = map_option JStr (env (envVarName p))) \<and>
           (\<forall>q. lookupPath q out \<noteq> None \<longrightarrow>
               (\<exists>p \<in> set (leafPaths (ZodObject shape)).
                   prefix q p \<and> env (envVarName p) \<noteq> None))"
proof -
  let ?ps = "leafPaths (ZodObject shape)"
  have w: "\<forall>p \<in> set ?ps. writable p []" by (simp add: writable_empty)
  have ne: "\<forall>p \<in> set ?ps. p \<noteq> []" using leafPaths_heads by blast
  from writeAll_spec[OF w pairwise_parallel_leafPaths[OF assms], of env]
  obtain out where
    o: "writeAll env ?ps [] = Inr out"
    and vals: "\<forall>p \<in> set ?ps. p \<noteq> [] \<longrightarrow>
                 lookupPath p out =
                   (case readEnvValue env p of
                      Some v \<Rightarrow> Some (JStr v)
                    | None \<Rightarrow> lookupPath p [])"
    by blast
  have r: "readInEnv True env (ZodObject shape) = Inr out"
    using o by (simp only: readInEnv_def readEnv_root) simp
  have v: "\<forall>p \<in> set ?ps. lookupPath p out = map_option JStr (env (envVarName p))"
    using vals ne by (auto simp: readEnvValue_def lookupPath_empty split: option.splits)
  have f: "\<forall>q. lookupPath q out \<noteq> None \<longrightarrow>
               (\<exists>p \<in> set ?ps. prefix q p \<and> env (envVarName p) \<noteq> None)"
  proof (intro allI impI)
    fix q assume "lookupPath q out \<noteq> None"
    from writeAll_frame[OF o this] show "\<exists>p \<in> set ?ps. prefix q p \<and> env (envVarName p) \<noteq> None"
      by (simp add: lookupPath_empty readEnvValue_def)
  qed
  show ?thesis using r v f by blast
qed


text \<open>
  Claim C6. For a well-formed schema whose root is an object, the resolver succeeds, and at
  every leaf path of the schema its output holds the value of the environment variable
  derived from the path, as a string, exactly when the variable is present (the empty
  string included); when the variable is absent there is nothing at the path. The output
  holds nothing else: whatever path has a value in it is a leaf path whose variable is
  present, or a prefix of one.
\<close>

theorem readInEnv_writes_iff_present:
  assumes "wf_zod (ZodObject shape)"
  shows "\<exists>out. readInEnv True env (ZodObject shape) = Inr out \<and>
           (\<forall>p \<in> set (leafPaths (ZodObject shape)).
               lookupPath p out = map_option JStr (env (envVarName p))) \<and>
           (\<forall>q. lookupPath q out \<noteq> None \<longrightarrow>
               (\<exists>p \<in> set (leafPaths (ZodObject shape)).
                   prefix q p \<and> env (envVarName p) \<noteq> None))"
  using assms by (rule readInEnv_leaves)

theorem readInEnv_writes_iff_present_witness:
  "wf_zod (ZodObject [(''string'', ZodString), (''number'', ZodNumber),
       (''object'', ZodObject [(''a'', ZodOptional ZodString), (''b'', ZodOptional ZodString)]),
       (''other'', ZodObject [(''x'', ZodString)])]) \<and>
   (\<exists>out. readInEnv True [''OBJECT_A'' \<mapsto> ''a from env'', ''STRING'' \<mapsto> '''']
        (ZodObject [(''string'', ZodString), (''number'', ZodNumber),
           (''object'', ZodObject [(''a'', ZodOptional ZodString), (''b'', ZodOptional ZodString)]),
           (''other'', ZodObject [(''x'', ZodString)])])
        = Inr out \<and>
      lookupPath [''string''] out = Some (JStr '''') \<and>
      lookupPath [''number''] out = None \<and>
      lookupPath [''object'', ''a''] out = Some (JStr ''a from env'') \<and>
      lookupPath [''object'', ''b''] out = None \<and>
      lookupPath [''other''] out = None)"
proof -
  let ?s = "[(''string'', ZodString), (''number'', ZodNumber),
       (''object'', ZodObject [(''a'', ZodOptional ZodString), (''b'', ZodOptional ZodString)]),
       (''other'', ZodObject [(''x'', ZodString)])]"
  let ?env = "[''OBJECT_A'' \<mapsto> ''a from env'', ''STRING'' \<mapsto> '''']"
  have wf: "wf_zod (ZodObject ?s)" by (simp add: wf_simps)
  from readInEnv_writes_iff_present[OF wf, of ?env] obtain out where
    o: "readInEnv True ?env (ZodObject ?s) = Inr out"
    and l: "\<forall>p \<in> set (leafPaths (ZodObject ?s)).
               lookupPath p out = map_option JStr (?env (envVarName p))"
    and f: "\<forall>q. lookupPath q out \<noteq> None \<longrightarrow>
               (\<exists>p \<in> set (leafPaths (ZodObject ?s)).
                   prefix q p \<and> ?env (envVarName p) \<noteq> None)"
    by blast
  have "lookupPath [''string''] out = Some (JStr '''')"
    using l by (simp add: envVarName_def toUpperCase_def toUpperChar_def)
  moreover have "lookupPath [''number''] out = None"
    using l by (simp add: envVarName_def toUpperCase_def toUpperChar_def)
  moreover have "lookupPath [''object'', ''a''] out = Some (JStr ''a from env'')"
    using l by (simp add: envVarName_def toUpperCase_def toUpperChar_def)
  moreover have "lookupPath [''object'', ''b''] out = None"
    using l by (simp add: envVarName_def toUpperCase_def toUpperChar_def)
  moreover have "lookupPath [''other''] out = None"
  proof (rule ccontr)
    assume "lookupPath [''other''] out \<noteq> None"
    with f have "\<exists>p \<in> set (leafPaths (ZodObject ?s)).
                   prefix [''other''] p \<and> ?env (envVarName p) \<noteq> None" by blast
    then show False by (simp add: envVarName_def toUpperCase_def toUpperChar_def)
  qed
  ultimately show ?thesis using wf o by blast
qed

lemmas env_name_simps = readInEnv_def readEnvValue_def envVarName_def toUpperCase_def toUpperChar_def

lemma length_join:
  "length (join sep xs) = sum_list (map length xs) + length sep * (length xs - 1)"
  by (induction sep xs rule: join.induct) simp_all

lemma toUpperChar_underscore: "(toUpperChar c = CHR ''_'') = (c = CHR ''_'')"
  by (simp add: toUpperChar_def)

text \<open>
  Claim C4. For every leaf path of a well-formed schema, the environment-variable name is
  the path's segments, each in upper case character by character, joined by a single
  underscore; its length is that of the segments plus one underscore between neighbours,
  and no underscore appears or disappears inside a segment, so a camel-case boundary is
  not split. The resolver stores at the leaf path the value of exactly that variable.
  \<open>database.poolSize\<close> gives \<open>DATABASE_POOLSIZE\<close>; the flat fields \<open>fooBar\<close> and \<open>foobar\<close> both
  give \<open>FOOBAR\<close>, and when that variable is set both fields receive its value.
\<close>

theorem legacy_name_collapses_camel_case:
  assumes "wf_zod (ZodObject shape)" and "p \<in> set (leafPaths (ZodObject shape))"
  shows "envVarName p = join ''_'' (map (map toUpperChar) p) \<and>
         length (envVarName p) = sum_list (map length p) + (length p - 1) \<and>
         (\<not> digit7 c \<longrightarrow> (toUpperChar c = CHR ''_'') = (c = CHR ''_'')) \<and>
         (\<exists>out. readInEnv True env (ZodObject shape) = Inr out \<and>
                lookupPath p out = map_option JStr (env (envVarName p))) \<and>
         envVarName [''database'', ''poolSize''] = ''DATABASE_POOLSIZE'' \<and>
         envVarName [''fooBar''] = ''FOOBAR'' \<and>
         envVarName [''foobar''] = ''FOOBAR'' \<and>
         (env ''FOOBAR'' = Some v \<longrightarrow>
            readInEnv True env (ZodObject [(''fooBar'', ZodString), (''foobar'', ZodString)])
              = Inr [(''fooBar'', JStr v), (''foobar'', JStr v)])"
proof (intro conjI impI)
  have m: "map toUpperCase p = map (map toUpperChar) p"
    by (simp add: toUpperCase_def)
  show "envVarName p = join ''_'' (map (map toUpperChar) p)"
    by (simp only: envVarName_def m)
  have lt: "length \<circ> toUpperCase = length"
    by (rule ext) (simp add: toUpperCase_def)
  show "length (envVarName p) = sum_list (map length p) + (length p - 1)"
    by (simp add: envVarName_def length_join lt)
  show "(toUpperChar c = CHR ''_'') = (c = CHR ''_'')" if "\<not> digit7 c"
    by (rule toUpperChar_underscore)
  from readInEnv_leaves[OF assms(1), of env] assms(2)
  show "\<exists>out. readInEnv True env (ZodObject shape) = Inr out \<and>
                lookupPath p out = map_option JStr (env (envVarName p))" by blast
  show "envVarName [''database'', ''poolSize''] = ''DATABASE_POOLSIZE''"
    by (simp add: envVarName_def toUpperCase_def toUpperChar_def)
  show "envVarName [''fooBar''] = ''FOOBAR''"
    by (simp add: envVarName_def toUpperCase_def toUpperChar_def)
  show "envVarName [''foobar''] = ''FOOBAR''"
    by (simp add: envVarName_def toUpperCase_def toUpperChar_def)
  show "readInEnv True env (ZodObject [(''fooBar'', ZodString), (''foobar'', ZodString)])
        = Inr [(''fooBar'', JStr v), (''foobar'', JStr v)]" if "env ''FOOBAR'' = Some v"
    using that by (simp add: env_name_simps)
qed

theorem legacy_name_collapses_camel_case_witness:
  "wf_zod (ZodObject [(''database'', ZodObject [(''poolSize'', ZodNumber)])]) \<and>
   [''database'', ''poolSize'']
     \<in> set (leafPaths (ZodObject [(''database'', ZodObject [(''poolSize'', ZodNumber)])])) \<and>
   [''DATABASE_POOLSIZE'' \<mapsto> ''10'', ''FOOBAR'' \<mapsto> ''baz''] ''FOOBAR'' = Some ''baz'' \<and>
   (\<exists>out. readInEnv True [''DATABASE_POOLSIZE'' \<mapsto> ''10'', ''FOOBAR'' \<mapsto> ''baz'']
             (ZodObject [(''database'', ZodObject [(''poolSize'', ZodNumber)])]) = Inr out \<and>
          lookupPath [''database'', ''poolSize''] out = Some (JStr ''10'')) \<and>
   readInEnv True [''DATABASE_POOLSIZE'' \<mapsto> ''10'', ''FOOBAR'' \<mapsto> ''baz'']
      (ZodObject [(''fooBar'', ZodString), (''foobar'', ZodString)])
     = Inr [(''fooBar'', JStr ''baz''), (''foobar'', JStr ''baz'')]"
proof -
  let ?s = "[(''database'', ZodObject [(''poolSize'', ZodNumber)])]"
  let ?env = "[''DATABASE_POOLSIZE'' \<mapsto> ''10'', ''FOOBAR'' \<mapsto> ''baz'']"
  have wf: "wf_zod (ZodObject ?s)" by (simp add: wf_simps)
  have p: "[''database'', ''poolSize''] \<in> set (leafPaths (ZodObject ?s))" by simp
  have e: "?env ''FOOBAR'' = Some ''baz''" by simp
  note t = legacy_name_collapses_camel_case[OF wf p, of "CHR ''_''" ?env "''baz''"]
  from t obtain out where o: "readInEnv True ?env (ZodObject ?s) = Inr out"
    and l: "lookupPath [''database'', ''poolSize''] out
              = map_option JStr (?env (envVarName [''database'', ''poolSize'']))"
    by blast
  from t have n: "envVarName [''database'', ''poolSize''] = ''DATABASE_POOLSIZE''" by blast
  have l': "lookupPath [''database'', ''poolSize''] out = Some (JStr ''10'')"
    using l unfolding n by simp
  from t e have c: "readInEnv True ?env (ZodObject [(''fooBar'', ZodString), (''foobar'', ZodString)])
     = Inr [(''fooBar'', JStr ''baz''), (''foobar'', JStr ''baz'')]" by blast
  show ?thesis using wf p e o l' c by blast
qed

text \<open>
  Claim C7. For a schema with the flat leaf \<open>foo_bar\<close> and the object \<open>foo\<close> with the leaf
  \<open>bar\<close>, both leaf paths derive the name \<open>FOO_BAR\<close>, and when that variable is set the
  resolver succeeds and stores its value at both paths.
\<close>

theorem name_collision_populates_both_paths:
  assumes "env ''FOO_BAR'' = Some v"
  shows "envVarName [''foo_bar''] = ''FOO_BAR'' \<and>
         envVarName [''foo'', ''bar''] = ''FOO_BAR'' \<and>
         readInEnv True env
           (ZodObject [(''foo_bar'', ZodString), (''foo'', ZodObject [(''bar'', ZodString)])])
           = Inr [(''foo_bar'', JStr v), (''foo'', JObj [(''bar'', JStr v)])]"
  using assms by (simp add: env_name_simps)

theorem name_collision_populates_both_paths_witness:
  "[''FOO_BAR'' \<mapsto> ''baz''] ''FOO_BAR'' = Some ''baz'' \<and>
   readInEnv True [''FOO_BAR'' \<mapsto> ''baz'']
       (ZodObject [(''foo_bar'', ZodString), (''foo'', ZodObject [(''bar'', ZodString)])])
     = Inr [(''foo_bar'', JStr ''baz''), (''foo'', JObj [(''bar'', JStr ''baz'')])]"
proof -
  have e: "[''FOO_BAR'' \<mapsto> ''baz''] ''FOO_BAR'' = Some ''baz''" by simp
  show ?thesis
    using name_collision_populates_both_paths[of "[''FOO_BAR'' \<mapsto> ''baz'']" "''baz''"] e
    by blast
qed


text \<open>
  Claim C10. The resolver visits the children of a node exactly when the node has a
  shape. Every other node is resolved as one leaf, from the variable named by its own
  path; this includes a wrapper around an object schema, whose inner fields are not
  resolved: with only \<open>DATABASE_URL\<close> set, an optional object \<open>database\<close> with the field
  \<open>url\<close> receives nothing, and with \<open>DATABASE\<close> set it receives that string itself.
\<close>

theorem readEnv_recurses_iff_shape:
  "readEnv env path (ZodObject shape) input = readEnv_shape env path shape input \<and>
   (\<not> isZodObject s \<longrightarrow>
      readEnv env path s input =
        (case env (envVarName path) of
           None \<Rightarrow> Inr input
         | Some v \<Rightarrow> writePath path v input)) \<and>
   readEnv env path (ZodOptional inner) input = readEnv env path ZodString input \<and>
   readEnv env path (ZodEffects inner) input = readEnv env path ZodString input \<and>
   readInEnv True [''DATABASE_URL'' \<mapsto> u]
       (ZodObject [(''database'', ZodOptional (ZodObject [(''url'', ZodString)]))]) = Inr [] \<and>
   readInEnv True [''DATABASE'' \<mapsto> u]
       (ZodObject [(''database'', ZodEffects (ZodObject [(''url'', ZodString)]))])
     = Inr [(''database'', JStr u)]"
proof (intro conjI impI)
  show "readEnv env path s input =
        (case env (envVarName path) of
           None \<Rightarrow> Inr input
         | Some v \<Rightarrow> writePath path v input)" if "\<not> isZodObject s"
    using that by (cases s) (simp_all add: readEnvValue_def)
qed (simp_all add: env_name_simps)

theorem readEnv_recurses_iff_shape_witness:
  "\<not> isZodObject (ZodOptional (ZodObject [(''url'', ZodString)])) \<and>
   readEnv [''DATABASE_URL'' \<mapsto> ''u'', ''DATABASE'' \<mapsto> ''d''] [''database'']
       (ZodOptional (ZodObject [(''url'', ZodString)])) []
     = Inr [(''database'', JStr ''d'')] \<and>
   readEnv [''DATABASE_URL'' \<mapsto> ''u'', ''DATABASE'' \<mapsto> ''d''] [''database'']
       (ZodObject [(''url'', ZodString)]) []
     = Inr [(''database'', JObj [(''url'', JStr ''u'')])]"
proof -
  let ?env = "[''DATABASE_URL'' \<mapsto> ''u'', ''DATABASE'' \<mapsto> ''d'']"
  have n: "\<not> isZodObject (ZodOptional (ZodObject [(''url'', ZodString)]))" by simp
  have 1: "readEnv ?env [''database''] (ZodOptional (ZodObject [(''url'', ZodString)])) []
            = Inr [(''database'', JStr ''d'')]"
    using readEnv_recurses_iff_shape
            [of ?env "[''database'']" "[]" "[]" "ZodOptional (ZodObject [(''url'', ZodString)])"] n
    by (simp add: envVarName_def toUpperCase_def toUpperChar_def)
  have 2: "readEnv ?env [''database''] (ZodObject [(''url'', ZodString)]) []
            = Inr [(''database'', JObj [(''url'', JStr ''u'')])]"
    by (simp add: env_name_simps)
  show ?thesis using n 1 2 by blast
qed

section \<open>Properties of the revised naming convention\<close>






section \<open>Properties of the loader\<close>

lemma distinct_writePath:
  "distinct (map fst input) \<Longrightarrow> writePath p v input = Inr out \<Longrightarrow> distinct (map fst out)"
proof (cases p)
  case Nil
  assume "distinct (map fst input)" "writePath p v input = Inr out"
  then show ?thesis using Nil by simp
next
  case (Cons key rest)
  assume d: "distinct (map fst input)" and w: "writePath p v input = Inr out"
  show ?thesis
  proof (cases rest)
    case Nil
    then show ?thesis using Cons d w by (auto simp: distinct_update)
  next
    case (Cons k' rest')
    from w obtain child where "out = AList.update key (JObj child) input"
      unfolding \<open>p = key # rest\<close> Cons by (rule writePath_ConsE)
    then show ?thesis using d by (simp add: distinct_update)
  qed
qed

lemma distinct_writeAll:
  "distinct (map fst input) \<Longrightarrow> writeAll env ps input = Inr out \<Longrightarrow> distinct (map fst out)"
proof (induction ps arbitrary: input)
  case Nil
  then show ?case by simp
next
  case (Cons p ps)
  show ?case
  proof (cases "readEnvValue env p")
    case None
    then show ?thesis using Cons by simp
  next
    case (Some v)
    then obtain mid where m: "writePath p v input = Inr mid" and r: "writeAll env ps mid = Inr out"
      using Cons.prems(2) by (auto split: sum.splits)
    from Cons.IH[OF distinct_writePath[OF Cons.prems(1) m] r] show ?thesis .
  qed
qed

lemma distinct_readInEnv: "readInEnv b env s = Inr out \<Longrightarrow> distinct (map fst out)"
  using distinct_writeAll[of "[]" env "leafPaths s" out]
  by (auto simp: readInEnv_def readEnv_root split: if_splits)

lemma cfg_foldl_apply_call:
  "cfg_values (foldl apply_call c calls) = cfg_values c @ valuesOf calls"
  "cfg_files (foldl apply_call c calls) = cfg_files c @ filesOf calls"
  "cfg_readFromEnv (foldl apply_call c calls) = (cfg_readFromEnv c \<or> ReadEnv \<in> set calls)"
  "cfg_schema (foldl apply_call c calls) = cfg_schema c"
proof (induction calls arbitrary: c)
  case Nil
  { case 1 show ?case by simp }
  { case 2 show ?case by simp }
  { case 3 show ?case by simp }
  { case 4 show ?case by simp }
next
  case (Cons x calls)
  { case 1 show ?case by (cases x) (simp_all add: Cons readValue_def readFile_def Config_readEnv_def) }
  { case 2 show ?case by (cases x) (simp_all add: Cons readValue_def readFile_def Config_readEnv_def) }
  { case 3 show ?case by (cases x) (auto simp add: Cons readValue_def readFile_def Config_readEnv_def) }
  { case 4 show ?case by (cases x) (simp_all add: Cons readValue_def readFile_def Config_readEnv_def) }
qed

lemma build_fields:
  "cfg_values (build s calls) = valuesOf calls"
  "cfg_files (build s calls) = filesOf calls"
  "cfg_readFromEnv (build s calls) = (ReadEnv \<in> set calls)"
  "cfg_schema (build s calls) = s"
  by (simp_all add: build_def cfg_foldl_apply_call newConfig_def)


lemma map_of_reducer_override:
  "distinct (map fst obj) \<Longrightarrow> map_of (reducer out obj) k = override (map_of out k) (map_of obj k)"
  by (simp add: map_of_reducer split: option.splits jv.splits)

lemma deepMerge_three:
  "deepMerge [deepMerge vs, F, E] = reducer (reducer (deepMerge vs) F) E"
  by (simp add: deepMerge_def) (simp add: deepMerge_of_merged[unfolded deepMerge_def])

lemma getInput_build:
  "getInput (build s calls) fs env =
     (case readAllSync fs (filesOf calls) of
        Inl e \<Rightarrow> Inl e
      | Inr rs \<Rightarrow>
          (case readInEnv (ReadEnv \<in> set calls) env s of
             Inl e \<Rightarrow> Inl e
           | Inr envInput \<Rightarrow> Inr (deepMerge [deepMerge (valuesOf calls), deepMerge rs, envInput])))"
  by (simp add: getInput_def readInFilesSync_def readInValues_def build_fields split: sum.splits)

text \<open>
  Claim C1. For a configuration built by any chain of \<open>readValue\<close>, \<open>readFile\<close> and
  \<open>readEnv\<close> calls, with plain value and file records and a well-formed schema, whose
  files decode and whose environment is resolved, the merged input is the deep merge of
  the merged values, the merged files and the environment record, in that order: at every
  key the file tier overrides the value tier and the environment tier overrides both. The
  input depends on the chain only through the values, the files and whether \<open>readEnv\<close>
  was called, not on how the calls of different kinds interleave.
\<close>

theorem precedence_values_files_env:
  assumes "readAllSync fs (filesOf calls) = Inr rs"
    and "readInEnv (ReadEnv \<in> set calls) env s = Inr envInput"
    and "\<forall>v \<in> set (valuesOf calls). plain (JObj v)"
    and "\<forall>r \<in> set rs. plain (JObj r)"
    and "wf_zod s"
  shows "getInput (build s calls) fs env
           = Inr (deepMerge [deepMerge (valuesOf calls), deepMerge rs, envInput]) \<and>
         (\<forall>k. map_of (deepMerge [deepMerge (valuesOf calls), deepMerge rs, envInput]) k
                = override (override (map_of (deepMerge (valuesOf calls)) k)
                                     (map_of (deepMerge rs) k))
                           (map_of envInput k)) \<and>
         (\<forall>calls'. valuesOf calls' = valuesOf calls \<and> filesOf calls' = filesOf calls \<and>
                    (ReadEnv \<in> set calls') = (ReadEnv \<in> set calls) \<longrightarrow>
                    getInput (build s calls') fs env = getInput (build s calls) fs env)"
proof (intro conjI allI impI)
  show "getInput (build s calls) fs env
           = Inr (deepMerge [deepMerge (valuesOf calls), deepMerge rs, envInput])"
    using assms(1,2) by (simp add: getInput_build)
next
  fix k
  have dE: "distinct (map fst envInput)" using assms(2) by (rule distinct_readInEnv)
  have dF: "distinct (map fst (deepMerge rs))" by (rule distinct_deepMerge)
  show "map_of (deepMerge [deepMerge (valuesOf calls), deepMerge rs, envInput]) k
                = override (override (map_of (deepMerge (valuesOf calls)) k)
                                     (map_of (deepMerge rs) k))
                           (map_of envInput k)"
    by (simp only: deepMerge_three map_of_reducer_override[OF dE] map_of_reducer_override[OF dF])
next
  fix calls'
  assume "valuesOf calls' = valuesOf calls \<and> filesOf calls' = filesOf calls \<and>
                    (ReadEnv \<in> set calls') = (ReadEnv \<in> set calls)"
  then show "getInput (build s calls') fs env = getInput (build s calls) fs env"
    by (simp only: getInput_build)
qed

theorem precedence_values_files_env_witness:
  "readAllSync [''config.json'' \<mapsto> JsonText (JObj [(''n'', JNum 1)])]
      (filesOf [ReadEnv, ReadFile [''config.json''], ReadValue [[(''n'', JNum 0)]]])
     = Inr [[(''n'', JNum 1)]] \<and>
   readInEnv (ReadEnv \<in> set [ReadEnv, ReadFile [''config.json''], ReadValue [[(''n'', JNum 0)]]])
      [''N'' \<mapsto> ''2''] (ZodObject [(''n'', ZodNumber)]) = Inr [(''n'', JStr ''2'')] \<and>
   list_all (\<lambda>v. plain (JObj v))
      (valuesOf [ReadEnv, ReadFile [''config.json''], ReadValue [[(''n'', JNum 0)]]]) \<and>
   list_all (\<lambda>r. plain (JObj r)) [[(''n'', JNum 1)]] \<and>
   wf_zod (ZodObject [(''n'', ZodNumber)]) \<and>
   getInput (build (ZodObject [(''n'', ZodNumber)])
               [ReadEnv, ReadFile [''config.json''], ReadValue [[(''n'', JNum 0)]]])
       [''config.json'' \<mapsto> JsonText (JObj [(''n'', JNum 1)])] [''N'' \<mapsto> ''2'']
     = Inr [(''n'', JStr ''2'')] \<and>
   getInput (build (ZodObject [(''n'', ZodNumber)])
               [ReadFile [''config.json''], ReadValue [[(''n'', JNum 0)]]])
       [''config.json'' \<mapsto> JsonText (JObj [(''n'', JNum 1)])] [''N'' \<mapsto> ''2'']
     = Inr [(''n'', JNum 1)]"
proof -
  let ?fs = "[''config.json'' \<mapsto> JsonText (JObj [(''n'', JNum 1)])]"
  let ?env = "[''N'' \<mapsto> ''2'']"
  let ?s = "ZodObject [(''n'', ZodNumber)]"
  let ?calls = "[ReadEnv, ReadFile [''config.json''], ReadValue [[(''n'', JNum 0)]]]"
  let ?calls2 = "[ReadFile [''config.json''], ReadValue [[(''n'', JNum 0)]]]"
  have f: "readAllSync ?fs (filesOf ?calls) = Inr [[(''n'', JNum 1)]]"
    by (simp add: readFileSync_def)
  have e: "readInEnv (ReadEnv \<in> set ?calls) ?env ?s = Inr [(''n'', JStr ''2'')]"
    by (simp add: env_name_simps)
  have f2: "readAllSync ?fs (filesOf ?calls2) = Inr [[(''n'', JNum 1)]]"
    by (simp add: readFileSync_def)
  have e2: "readInEnv (ReadEnv \<in> set ?calls2) ?env ?s = Inr []"
    by (simp add: env_name_simps)
  have pv: "\<forall>v \<in> set (valuesOf ?calls). plain (JObj v)" by simp
  have pv2: "\<forall>v \<in> set (valuesOf ?calls2). plain (JObj v)" by simp
  have pr: "\<forall>r \<in> set [[(''n'', JNum 1)]]. plain (JObj r)" by simp
  have wf: "wf_zod ?s" by (simp add: wf_simps)
  have 1: "getInput (build ?s ?calls) ?fs ?env = Inr [(''n'', JStr ''2'')]"
    using precedence_values_files_env[OF f e pv pr wf] by (simp add: deepMerge_def)
  have 2: "getInput (build ?s ?calls2) ?fs ?env = Inr [(''n'', JNum 1)]"
    using precedence_values_files_env[OF f2 e2 pv2 pr wf] by (simp add: deepMerge_def)
  have pvl: "list_all (\<lambda>v. plain (JObj v)) (valuesOf ?calls)" by simp
  have prl: "list_all (\<lambda>r. plain (JObj r)) [[(''n'', JNum 1)]]" by simp
  show ?thesis using f e pvl prl wf 1 2 by blast
qed

lemma readAllSync_Inr:
  "readAllSync fs paths = Inr rs \<Longrightarrow>
     length rs = length paths \<and>
     (\<forall>i < length paths. \<exists>data. fs (paths ! i) = Some data \<and> parseFile data = Inr (rs ! i))"
proof (induction paths arbitrary: rs)
  case Nil
  then show ?case by simp
next
  case (Cons p ps)
  from Cons.prems obtain data r rs' where
    d: "fs p = Some data" and r: "parseFile data = Inr r"
    and rest: "readAllSync fs ps = Inr rs'" and rs: "rs = r # rs'"
    by (auto simp: readFileSync_def split: option.splits sum.splits)
  from Cons.IH[OF rest] have len: "length rs' = length ps"
    and ok: "\<forall>i < length ps. \<exists>data. fs (ps ! i) = Some data \<and> parseFile data = Inr (rs' ! i)"
    by simp_all
  show ?case
  proof (intro conjI allI impI)
    show "length rs = length (p # ps)" using len rs by simp
    fix i assume "i < length (p # ps)"
    then show "\<exists>data. fs ((p # ps) ! i) = Some data \<and> parseFile data = Inr (rs ! i)"
      using d r ok rs by (cases i) auto
  qed
qed

lemma readAllSync_Inl:
  "readAllSync fs paths = Inl e \<Longrightarrow>
     \<exists>i < length paths. fs (paths ! i) = None \<or>
        (\<exists>data e'. fs (paths ! i) = Some data \<and> parseFile data = Inl e')"
proof (induction paths)
  case Nil
  then show ?case by simp
next
  case (Cons p ps)
  show ?case
  proof (cases "fs p")
    case None
    then have "fs ((p # ps) ! 0) = None" by simp
    then show ?thesis by blast
  next
    case (Some data)
    show ?thesis
    proof (cases "parseFile data")
      case (Inl e')
      then have "fs ((p # ps) ! 0) = Some data \<and> parseFile data = Inl e'" using Some by simp
      then show ?thesis by blast
    next
      case (Inr r)
      then have "readAllSync fs ps = Inl e"
        using Cons.prems Some by (auto simp: readFileSync_def split: sum.splits)
      from Cons.IH[OF this] obtain i where "i < length ps"
        "fs (ps ! i) = None \<or> (\<exists>data e'. fs (ps ! i) = Some data \<and> parseFile data = Inl e')"
        by blast
      then have "Suc i < length (p # ps) \<and> (fs ((p # ps) ! Suc i) = None \<or>
          (\<exists>data e'. fs ((p # ps) ! Suc i) = Some data \<and> parseFile data = Inl e'))"
        by simp
      then show ?thesis by blast
    qed
  qed
qed

lemma those_map_Some: "those (map Some xs) = Some xs"
  by (induction xs) simp_all

lemma settle_resolves:
  assumes "\<forall>i < length paths. \<exists>data. fs (paths ! i) = Some data \<and> parseFile data = Inr (rs ! i)"
    and "length rs = length paths" and "length slots = length paths"
    and "\<forall>i < length paths. slots ! i = Some (rs ! i) \<or> (slots ! i = None \<and> i \<in> set order)"
  shows "settle fs paths order slots = Resolved rs"
  using assms(3,4)
proof (induction order arbitrary: slots)
  case Nil
  have "slots = map Some rs"
    using Nil assms(2) by (intro nth_equalityI) auto
  then show ?case by (simp add: those_map_Some)
next
  case (Cons i order)
  show ?case
  proof (cases "i < length paths")
    case False
    have "\<forall>j < length paths. slots ! j = Some (rs ! j) \<or> (slots ! j = None \<and> j \<in> set order)"
      using Cons.prems(2) False by auto
    from Cons.IH[OF Cons.prems(1) this] show ?thesis using False by simp
  next
    case True
    from assms(1) True obtain data where d: "fs (paths ! i) = Some data"
      and r: "parseFile data = Inr (rs ! i)" by blast
    let ?slots = "slots[i := Some (rs ! i)]"
    have len: "length ?slots = length paths" using Cons.prems(1) by simp
    have inv: "\<forall>j < length paths. ?slots ! j = Some (rs ! j) \<or> (?slots ! j = None \<and> j \<in> set order)"
    proof (intro allI impI)
      fix j assume j: "j < length paths"
      show "?slots ! j = Some (rs ! j) \<or> (?slots ! j = None \<and> j \<in> set order)"
      proof (cases "j = i")
        case True
        then show ?thesis using j Cons.prems(1) by simp
      next
        case False
        then show ?thesis using Cons.prems(2) j by auto
      qed
    qed
    from Cons.IH[OF len inv] show ?thesis using True d r by simp
  qed
qed

lemma settle_Resolved_ok:
  "settle fs paths order slots = Resolved rs \<Longrightarrow> i \<in> set order \<Longrightarrow> i < length paths \<Longrightarrow>
     \<exists>data r. fs (paths ! i) = Some data \<and> parseFile data = Inr r"
proof (induction order arbitrary: slots)
  case Nil
  then show ?case by simp
next
  case (Cons j order)
  show ?case
  proof (cases "j < length paths")
    case False
    then have "settle fs paths order slots = Resolved rs" using Cons.prems(1) by simp
    moreover have "i \<in> set order" using Cons.prems(2,3) False by auto
    ultimately show ?thesis using Cons.IH Cons.prems(3) by blast
  next
    case True
    from Cons.prems(1) True obtain data r where d: "fs (paths ! j) = Some data"
      and r: "parseFile data = Inr r"
      and rest: "settle fs paths order (slots[j := Some r]) = Resolved rs"
      by (auto split: option.splits sum.splits)
    show ?thesis
    proof (cases "i = j")
      case True
      then show ?thesis using d r by blast
    next
      case False
      then have "i \<in> set order" using Cons.prems(2) by simp
      from Cons.IH[OF rest this Cons.prems(3)] show ?thesis .
    qed
  qed
qed

lemma settle_iff_sync:
  assumes "set order = {..<length paths}"
  shows "settle fs paths order (replicate (length paths) None) = Resolved rs
           \<longleftrightarrow> readAllSync fs paths = Inr rs"
proof
  assume s: "readAllSync fs paths = Inr rs"
  from readAllSync_Inr[OF s] show "settle fs paths order (replicate (length paths) None) = Resolved rs"
    using assms by (intro settle_resolves) auto
next
  assume a: "settle fs paths order (replicate (length paths) None) = Resolved rs"
  show "readAllSync fs paths = Inr rs"
  proof (cases "readAllSync fs paths")
    case (Inl e)
    from readAllSync_Inl[OF Inl] obtain i where i: "i < length paths"
      and bad: "fs (paths ! i) = None \<or>
        (\<exists>data e'. fs (paths ! i) = Some data \<and> parseFile data = Inl e')" by blast
    have "i \<in> set order" using i assms by simp
    from settle_Resolved_ok[OF a this i] bad show ?thesis by auto
  next
    case (Inr rs')
    from readAllSync_Inr[OF Inr] have
      "settle fs paths order (replicate (length paths) None) = Resolved rs'"
      using assms by (intro settle_resolves) auto
    then show ?thesis using a Inr by simp
  qed
qed

lemma readInFiles_iff_sync:
  assumes "set order = {..<length (cfg_files c)}"
  shows "readInFiles order c fs = Resolved fileInput \<longleftrightarrow> readInFilesSync c fs = Inr fileInput"
proof
  assume a: "readInFiles order c fs = Resolved fileInput"
  then obtain rs where
    s: "settle fs (cfg_files c) order (replicate (length (cfg_files c)) None) = Resolved rs"
    and f: "fileInput = deepMerge rs"
    unfolding readInFiles_def by (auto split: async.splits)
  from s have "readAllSync fs (cfg_files c) = Inr rs"
    by (simp only: settle_iff_sync[OF assms])
  then show "readInFilesSync c fs = Inr fileInput"
    using f by (simp add: readInFilesSync_def)
next
  assume a: "readInFilesSync c fs = Inr fileInput"
  then obtain rs where s: "readAllSync fs (cfg_files c) = Inr rs" and f: "fileInput = deepMerge rs"
    unfolding readInFilesSync_def by (auto split: sum.splits)
  from s have "settle fs (cfg_files c) order (replicate (length (cfg_files c)) None) = Resolved rs"
    by (simp only: settle_iff_sync[OF assms])
  then show "readInFiles order c fs = Resolved fileInput"
    using f by (simp add: readInFiles_def)
qed

text \<open>
  Claim C8. Whatever the order in which the file reads complete (every read completes, so
  \<open>order\<close> holds each index), the asynchronous finalize resolves with exactly the merged
  files, and the merged input, that the synchronous finalize returns for the same files
  and environment: the decoded records are merged in registration order.
\<close>

theorem async_merge_in_registration_order:
  assumes "set order = {..<length (cfg_files c)}"
  shows "(readInFiles order c fs = Resolved fileInput \<longleftrightarrow> readInFilesSync c fs = Inr fileInput) \<and>
         (getInputAsync order c fs env = Resolved input \<longleftrightarrow> getInput c fs env = Inr input)"
proof
  show "readInFiles order c fs = Resolved fileInput \<longleftrightarrow> readInFilesSync c fs = Inr fileInput"
    using assms by (rule readInFiles_iff_sync)
next
  show "getInputAsync order c fs env = Resolved input \<longleftrightarrow> getInput c fs env = Inr input"
  proof
    assume "getInputAsync order c fs env = Resolved input"
    then obtain F E where F: "readInFiles order c fs = Resolved F"
      and E: "readInEnv (cfg_readFromEnv c) env (cfg_schema c) = Inr E"
      and i: "input = deepMerge [readInValues c, F, E]"
      unfolding getInputAsync_def Let_def by (auto split: async.splits sum.splits)
    from F have "readInFilesSync c fs = Inr F" by (simp only: readInFiles_iff_sync[OF assms])
    then show "getInput c fs env = Inr input" using E i by (simp add: getInput_def)
  next
    assume "getInput c fs env = Inr input"
    then obtain F E where F: "readInFilesSync c fs = Inr F"
      and E: "readInEnv (cfg_readFromEnv c) env (cfg_schema c) = Inr E"
      and i: "input = deepMerge [readInValues c, F, E]"
      unfolding getInput_def Let_def by (auto split: sum.splits)
    from F have "readInFiles order c fs = Resolved F" by (simp only: readInFiles_iff_sync[OF assms])
    then show "getInputAsync order c fs env = Resolved input" using E i by (simp add: getInputAsync_def)
  qed
qed

theorem async_merge_in_registration_order_witness:
  "set [1, 0] = {..<length (cfg_files (readFile [''slow.json'', ''fast.json''] (newConfig (ZodObject []))))} \<and>
   getInput (readFile [''slow.json'', ''fast.json''] (newConfig (ZodObject [])))
      [''slow.json'' \<mapsto> JsonText (JObj [(''k'', JNum 1), (''a'', JNum 1)]),
       ''fast.json'' \<mapsto> JsonText (JObj [(''k'', JNum 2)])] Map.empty
     = Inr [(''k'', JNum 2), (''a'', JNum 1)] \<and>
   getInputAsync [1, 0] (readFile [''slow.json'', ''fast.json''] (newConfig (ZodObject [])))
      [''slow.json'' \<mapsto> JsonText (JObj [(''k'', JNum 1), (''a'', JNum 1)]),
       ''fast.json'' \<mapsto> JsonText (JObj [(''k'', JNum 2)])] Map.empty
     = Resolved [(''k'', JNum 2), (''a'', JNum 1)]"
proof -
  let ?c = "readFile [''slow.json'', ''fast.json''] (newConfig (ZodObject []))"
  let ?fs = "[''slow.json'' \<mapsto> JsonText (JObj [(''k'', JNum 1), (''a'', JNum 1)]),
       ''fast.json'' \<mapsto> JsonText (JObj [(''k'', JNum 2)])]"
  have o: "set [1, 0] = {..<length (cfg_files ?c)}"
    by (auto simp: readFile_def newConfig_def)
  have s: "getInput ?c ?fs Map.empty = Inr [(''k'', JNum 2), (''a'', JNum 1)]"
    by (simp add: getInput_def readInFilesSync_def readInValues_def readFile_def newConfig_def
        readFileSync_def readInEnv_def deepMerge_def)
  have "getInputAsync [1, 0] ?c ?fs Map.empty = Resolved [(''k'', JNum 2), (''a'', JNum 1)]"
    using async_merge_in_registration_order[OF o, of ?fs] s by simp
  then show ?thesis using o s by blast
qed

text \<open>
  Claim C9 fails as stated: a registered file that cannot be read makes \<open>safeParse\<close> throw
  the read error, and \<open>safeParseAsync\<close> reject with it, whatever the validator is.
\<close>

theorem safeParse_throws_counterexample:
  "safeParse (\<lambda>s input. SafeParseSuccess input)
      (readFile [''missing.json''] (newConfig (ZodObject [(''foo'', ZodString)])))
      Map.empty Map.empty
     = Inl (ReadError ''missing.json'') \<and>
   safeParseAsync (\<lambda>s input. SafeParseSuccess input) [0]
      (readFile [''missing.json''] (newConfig (ZodObject [(''foo'', ZodString)])))
      Map.empty Map.empty
     = Rejected (ReadError ''missing.json'')"
  by (simp add: safeParse_def safeParseAsync_def getInput_def getInputAsync_def
      readInFilesSync_def readInFiles_def readInValues_def readFile_def newConfig_def
      readFileSync_def)

text \<open>
  Claim C9, as amended. When a registered file fails to read or decode, \<open>safeParse\<close> throws
  that error. When every registered file decodes to a record, the value and file records
  are plain and the schema is well formed, \<open>safeParse\<close> returns the validator's
  discriminated outcome for the merged input and \<open>safeParseAsync\<close> resolves with it,
  whatever the completion order of the reads: on an invalid merged input both give the
  validator's failure value and neither throws.
\<close>

theorem safeParse_returns_when_files_decode:
  "(readAllSync fs (cfg_files c) = Inl e \<longrightarrow> safeParse validate c fs env = Inl e) \<and>
   (wf_zod (cfg_schema c) \<and> (\<forall>v \<in> set (cfg_values c). plain (JObj v)) \<and>
    readAllSync fs (cfg_files c) = Inr rs \<and> (\<forall>r \<in> set rs. plain (JObj r)) \<longrightarrow>
      (\<exists>input. getInput c fs env = Inr input \<and>
         safeParse validate c fs env = Inr (validate (cfg_schema c) input) \<and>
         (set order = {..<length (cfg_files c)} \<longrightarrow>
            safeParseAsync validate order c fs env = Resolved (validate (cfg_schema c) input))))"
proof (intro conjI impI)
  assume "readAllSync fs (cfg_files c) = Inl e"
  then show "safeParse validate c fs env = Inl e"
    by (simp add: safeParse_def getInput_def readInFilesSync_def)
next
  assume a: "wf_zod (cfg_schema c) \<and> (\<forall>v \<in> set (cfg_values c). plain (JObj v)) \<and>
    readAllSync fs (cfg_files c) = Inr rs \<and> (\<forall>r \<in> set rs. plain (JObj r))"
  from readInEnv_total[of "cfg_schema c" "cfg_readFromEnv c" env] a
  obtain E where E: "readInEnv (cfg_readFromEnv c) env (cfg_schema c) = Inr E" by blast
  let ?input = "deepMerge [readInValues c, deepMerge rs, E]"
  have g: "getInput c fs env = Inr ?input"
    using a E by (simp add: getInput_def readInFilesSync_def)
  have s: "safeParse validate c fs env = Inr (validate (cfg_schema c) ?input)"
    using g by (simp add: safeParse_def)
  have as: "safeParseAsync validate order c fs env = Resolved (validate (cfg_schema c) ?input)"
    if o: "set order = {..<length (cfg_files c)}"
  proof -
    have "getInputAsync order c fs env = Resolved ?input"
      using g readInFiles_iff_sync[OF o, of fs "deepMerge rs"] a E
      by (simp add: getInputAsync_def readInFilesSync_def)
    then show ?thesis by (simp add: safeParseAsync_def)
  qed
  show "\<exists>input. getInput c fs env = Inr input \<and>
         safeParse validate c fs env = Inr (validate (cfg_schema c) input) \<and>
         (set order = {..<length (cfg_files c)} \<longrightarrow>
            safeParseAsync validate order c fs env = Resolved (validate (cfg_schema c) input))"
    using g s as by blast
qed

theorem safeParse_returns_when_files_decode_witness:
  "wf_zod (cfg_schema (readValue [[(''foo'', JNum 1)]] (newConfig (ZodObject [(''foo'', ZodString)])))) \<and>
   list_all (\<lambda>v. plain (JObj v))
      (cfg_values (readValue [[(''foo'', JNum 1)]] (newConfig (ZodObject [(''foo'', ZodString)])))) \<and>
   readAllSync Map.empty
      (cfg_files (readValue [[(''foo'', JNum 1)]] (newConfig (ZodObject [(''foo'', ZodString)]))))
     = Inr [] \<and>
   safeParse
      (\<lambda>s input. case map_of input ''foo'' of
                     Some (JStr x) \<Rightarrow> SafeParseSuccess input
                   | _ \<Rightarrow> SafeParseError [ZodIssue ''invalid_type'' [''foo'']])
      (readValue [[(''foo'', JNum 1)]] (newConfig (ZodObject [(''foo'', ZodString)])))
      Map.empty Map.empty
     = Inr (SafeParseError [ZodIssue ''invalid_type'' [''foo'']]) \<and>
   safeParseAsync
      (\<lambda>s input. case map_of input ''foo'' of
                     Some (JStr x) \<Rightarrow> SafeParseSuccess input
                   | _ \<Rightarrow> SafeParseError [ZodIssue ''invalid_type'' [''foo'']])
      []
      (readValue [[(''foo'', JNum 1)]] (newConfig (ZodObject [(''foo'', ZodString)])))
      Map.empty Map.empty
     = Resolved (SafeParseError [ZodIssue ''invalid_type'' [''foo'']])"
proof -
  let ?c = "readValue [[(''foo'', JNum 1)]] (newConfig (ZodObject [(''foo'', ZodString)]))"
  let ?v = "\<lambda>(s :: zod) input. case map_of input ''foo'' of
                     Some (JStr x) \<Rightarrow> SafeParseSuccess input
                   | _ \<Rightarrow> SafeParseError [ZodIssue ''invalid_type'' [''foo'']]"
  have wf: "wf_zod (cfg_schema ?c)" by (simp add: readValue_def newConfig_def wf_simps)
  have pv: "\<forall>v \<in> set (cfg_values ?c). plain (JObj v)" by (simp add: readValue_def newConfig_def)
  have f: "readAllSync Map.empty (cfg_files ?c) = Inr []" by (simp add: readValue_def newConfig_def)
  have pr: "\<forall>r \<in> set ([] :: jrecord list). plain (JObj r)" by simp
  have o: "set [] = {..<length (cfg_files ?c)}" by (simp add: readValue_def newConfig_def)
  have g: "getInput ?c Map.empty Map.empty = Inr [(''foo'', JNum 1)]"
    by (simp add: getInput_def readInFilesSync_def readInValues_def readValue_def newConfig_def
        readInEnv_def deepMerge_def)
  from safeParse_returns_when_files_decode
         [of Map.empty ?c "TypeError" ?v Map.empty "[]" "[]"] wf pv f pr o
  obtain input where i: "getInput ?c Map.empty Map.empty = Inr input"
    and s: "safeParse ?v ?c Map.empty Map.empty = Inr (?v (cfg_schema ?c) input)"
    and a: "safeParseAsync ?v [] ?c Map.empty Map.empty = Resolved (?v (cfg_schema ?c) input)"
    by blast
  from i g have "input = [(''foo'', JNum 1)]" by simp
  then have "?v (cfg_schema ?c) input = SafeParseError [ZodIssue ''invalid_type'' [''foo'']]"
    by simp
  moreover have "list_all (\<lambda>v. plain (JObj v)) (cfg_values ?c)"
    by (simp add: readValue_def newConfig_def)
  ultimately show ?thesis using wf f s a by simp
qed

end
